theory Spec2Isabelle
  imports Main "HOL-Library.Word" "HOL-Library.List_Lexorder" "HOL-Library.Char_ord"
begin

section \<open>The directed-graph library of \<^verbatim>\<open>graph.h\<close>\<close>

text \<open>
  \<^verbatim>\<open>Graph<NodeType>\<close> keeps a \<^verbatim>\<open>std::set\<close> of nodes and two
  \<^verbatim>\<open>std::map\<close>s from a node to the \<^verbatim>\<open>std::vector\<close> of its successors and
  of its predecessors. The node type is any type with a total order, here \<open>'a::linorder\<close>;
  the value-initialised node \<^verbatim>\<open>NodeType()\<close>, which the depth first search uses for
  "no parent", is passed to the functions that need it as the parameter \<open>dflt\<close>.
\<close>

subsection \<open>Exceptions\<close>

text \<open>
  The three \<^verbatim>\<open>std::logic_error\<close>s the library throws, by what their messages say
  (the two messages of \<^verbatim>\<open>add_edge\<close> name the endpoint that is missing), the
  \<^verbatim>\<open>std::out_of_range\<close> of \<^verbatim>\<open>std::map::at\<close>, and a failed \<^verbatim>\<open>assert\<close>.
\<close>

datatype endpoint = FromNode | ToNode

datatype error =
    DuplicateNode
  | UnknownNode endpoint
  | IncompatibleNodeSets
  | OutOfRange
  | AssertionFailed

subsection \<open>Containers\<close>

text \<open>
  A \<^verbatim>\<open>std::set\<close> is the list of its elements in ascending order, a \<^verbatim>\<open>std::map\<close>
  the list of its entries in ascending key order: the order in which the code iterates
  over them, and the representation on which \<^verbatim>\<open>==\<close> of two containers is equality
  of lists.
\<close>

type_synonym 'a cpp_set = "'a list"

type_synonym ('k, 'v) cpp_map = "('k \<times> 'v) list"

text \<open>\<^verbatim>\<open>s.insert(x)\<close>\<close>

definition set_insert :: "'a::linorder \<Rightarrow> 'a cpp_set \<Rightarrow> 'a cpp_set" where
  "set_insert x s = (if x \<in> set s then s else insort x s)"

text \<open>\<^verbatim>\<open>m[k] = v\<close>: overwrites the entry of \<open>k\<close>, or inserts one in key order.\<close>

fun map_assign :: "'k::linorder \<Rightarrow> 'v \<Rightarrow> ('k, 'v) cpp_map \<Rightarrow> ('k, 'v) cpp_map" where
  "map_assign k v [] = [(k, v)]"
| "map_assign k v ((k', v') # m) =
     (if k < k' then (k, v) # (k', v') # m
      else if k = k' then (k, v) # m
      else (k', v') # map_assign k v m)"

text \<open>\<^verbatim>\<open>m.at(k)\<close> as a read: throws \<^verbatim>\<open>std::out_of_range\<close> when \<open>k\<close> has no entry.\<close>

definition map_at :: "('k, 'v) cpp_map \<Rightarrow> 'k \<Rightarrow> error + 'v" where
  "map_at m k = (case map_of m k of None \<Rightarrow> Inl OutOfRange | Some v \<Rightarrow> Inr v)"

text \<open>
  \<^verbatim>\<open>m.at(k)\<close> as the target of a mutation (\<^verbatim>\<open>m.at(k).emplace_back(x)\<close>,
  \<^verbatim>\<open>m.at(k).color = c\<close>): the entry of \<open>k\<close> becomes \<open>f\<close> of its old value.
\<close>

definition map_modify_at :: "'k \<Rightarrow> ('v \<Rightarrow> 'v) \<Rightarrow> ('k, 'v) cpp_map \<Rightarrow> error + ('k, 'v) cpp_map" where
  "map_modify_at k f m =
     (if map_of m k = None then Inl OutOfRange
      else Inr (map (\<lambda>(k', v). if k' = k then (k', f v) else (k', v)) m))"

text \<open>A \<^verbatim>\<open>for\<close> loop over a container whose body may throw.\<close>

fun fold_err :: "('x \<Rightarrow> 's \<Rightarrow> error + 's) \<Rightarrow> 'x list \<Rightarrow> 's \<Rightarrow> error + 's" where
  "fold_err f [] s = Inr s"
| "fold_err f (x # xs) s = (case f x s of Inl e \<Rightarrow> Inl e | Inr s' \<Rightarrow> fold_err f xs s')"

subsection \<open>The graph store\<close>

record 'a graph =
  node_set :: "'a cpp_set"
  succ_map :: "('a, 'a list) cpp_map"
  pred_map :: "('a, 'a list) cpp_map"
  node_printer :: "'a \<Rightarrow> string"

text \<open>The constructor \<^verbatim>\<open>Graph(node_printer)\<close>.\<close>

definition empty_graph :: "('a \<Rightarrow> string) \<Rightarrow> 'a graph" where
  "empty_graph p = \<lparr>node_set = [], succ_map = [], pred_map = [], node_printer = p\<rparr>"

text \<open>
  \<^verbatim>\<open>add_node\<close> and \<^verbatim>\<open>add_edge\<close> mutate the graph they are called on. They return
  the exception thrown, if any, and the graph as the call leaves it.
\<close>

definition add_node :: "'a::linorder graph \<Rightarrow> 'a \<Rightarrow> error option \<times> 'a graph" where
  "add_node g node =
     (if node \<in> set (node_set g) then (Some DuplicateNode, g)
      else (None, g\<lparr>node_set := set_insert node (node_set g),
                     succ_map := map_assign node [] (succ_map g),
                     pred_map := map_assign node [] (pred_map g)\<rparr>))"

text \<open>
  \<^verbatim>\<open>add_edge\<close>, statement by statement. The warning printed on \<^verbatim>\<open>std::cout\<close> when
  the edge exists is not part of the state. The \<^verbatim>\<open>assert\<close> is modelled as compiled in.
\<close>

definition add_edge :: "'a::linorder graph \<Rightarrow> 'a \<Rightarrow> 'a \<Rightarrow> error option \<times> 'a graph" where
  "add_edge g from_node to_node =
     (if from_node \<notin> set (node_set g) then (Some (UnknownNode FromNode), g)
      else if to_node \<notin> set (node_set g) then (Some (UnknownNode ToNode), g)
      else case map_at (succ_map g) from_node of Inl e \<Rightarrow> (Some e, g) | Inr succs \<Rightarrow>
       (if to_node \<in> set succs then
          (case map_at (pred_map g) to_node of Inl e \<Rightarrow> (Some e, g) | Inr preds \<Rightarrow>
             if from_node \<in> set preds then (None, g) else (Some AssertionFailed, g))
        else
          (case map_modify_at from_node (\<lambda>l. l @ [to_node]) (succ_map g) of
             Inl e \<Rightarrow> (Some e, g)
           | Inr sm \<Rightarrow>
          (let g1 = g\<lparr>succ_map := sm\<rparr> in
           case map_modify_at to_node (\<lambda>l. l @ [from_node]) (pred_map g1) of
             Inl e \<Rightarrow> (Some e, g1)
           | Inr pm \<Rightarrow>
          (let g2 = g1\<lparr>pred_map := pm\<rparr> in
           case map_modify_at from_node sort (succ_map g2) of
             Inl e \<Rightarrow> (Some e, g2)
           | Inr sm' \<Rightarrow>
          (let g3 = g2\<lparr>succ_map := sm'\<rparr> in
           case map_modify_at to_node sort (pred_map g3) of
             Inl e \<Rightarrow> (Some e, g3)
           | Inr pm' \<Rightarrow> (None, g3\<lparr>pred_map := pm'\<rparr>)))))))"

text \<open>A call on a local graph inside another operation: the exception propagates.\<close>

definition raise_or_continue :: "error option \<times> 'a graph \<Rightarrow> error + 'a graph" where
  "raise_or_continue r = (case fst r of Some e \<Rightarrow> Inl e | None \<Rightarrow> Inr (snd r))"

text \<open>\<^verbatim>\<open>operator==\<close>: the node printer is not compared.\<close>

definition graph_eq :: "'a graph \<Rightarrow> 'a graph \<Rightarrow> bool" where
  "graph_eq a b \<longleftrightarrow>
     node_set a = node_set b \<and> succ_map a = succ_map b \<and> pred_map a = pred_map b"

text \<open>
  \<^verbatim>\<open>exists_edge\<close>: the second conjunct, and with it \<^verbatim>\<open>pred_map_.at(b)\<close>, is
  evaluated only when the first holds.
\<close>

definition exists_edge :: "'a graph \<Rightarrow> 'a \<Rightarrow> 'a \<Rightarrow> error + bool" where
  "exists_edge g a b =
     (case map_at (succ_map g) a of Inl e \<Rightarrow> Inl e | Inr succs \<Rightarrow>
       (if b \<in> set succs then
          (case map_at (pred_map g) b of Inl e \<Rightarrow> Inl e | Inr preds \<Rightarrow> Inr (a \<in> set preds))
        else Inr False))"

subsection \<open>Structural transforms\<close>

definition clear_node :: "'a \<Rightarrow> 'a graph \<Rightarrow> error + 'a graph" where
  "clear_node node c =
     (case map_modify_at node (\<lambda>_. []) (succ_map c) of Inl e \<Rightarrow> Inl e | Inr sm \<Rightarrow>
     (case map_modify_at node (\<lambda>_. []) (pred_map c) of Inl e \<Rightarrow> Inl e | Inr pm \<Rightarrow>
        Inr (c\<lparr>succ_map := sm, pred_map := pm\<rparr>)))"

definition copy_and_clear :: "'a graph \<Rightarrow> error + 'a graph" where
  "copy_and_clear g = fold_err clear_node (node_set g) g"

text \<open>
  The body of the loops of \<^verbatim>\<open>transpose\<close>: the edge from \<open>node\<close> to \<open>neighbor\<close>
  is written reversed into the adjacency maps, at the end of both lists.
\<close>

definition flip_edge :: "'a \<Rightarrow> 'a \<Rightarrow> 'a graph \<Rightarrow> error + 'a graph" where
  "flip_edge node neighbor t =
     (case map_modify_at neighbor (\<lambda>l. l @ [node]) (succ_map t) of Inl e \<Rightarrow> Inl e | Inr sm \<Rightarrow>
     (case map_modify_at node (\<lambda>l. l @ [neighbor]) (pred_map t) of Inl e \<Rightarrow> Inl e | Inr pm \<Rightarrow>
        Inr (t\<lparr>succ_map := sm, pred_map := pm\<rparr>)))"

definition transpose_graph :: "'a graph \<Rightarrow> error + 'a graph" where
  "transpose_graph g =
     (case copy_and_clear g of Inl e \<Rightarrow> Inl e | Inr t \<Rightarrow>
        fold_err (\<lambda>node. fold_err (flip_edge (fst node)) (snd node)) (succ_map g) t)"

text \<open>\<^verbatim>\<open>operator+\<close>, the union of two graphs over the same nodes.\<close>

definition add_edges_of :: "'a::linorder graph \<Rightarrow> 'a graph \<Rightarrow> error + 'a graph" where
  "add_edges_of graph result =
     fold_err (\<lambda>node. fold_err (\<lambda>neighbor r. raise_or_continue (add_edge r (fst node) neighbor))
                 (snd node)) (succ_map graph) result"

definition graph_union :: "'a::linorder graph \<Rightarrow> 'a graph \<Rightarrow> error + 'a graph" where
  "graph_union a b =
     (if node_set a \<noteq> node_set b then Inl IncompatibleNodeSets
      else (case copy_and_clear a of Inl e \<Rightarrow> Inl e | Inr result \<Rightarrow>
        fold_err add_edges_of [a, b] result))"

subsection \<open>Depth first search\<close>

text \<open>
  The colour, parent and the two times of a node during a search. \<^verbatim>\<open>int\<close> is the
  32-bit two's-complement integer; it is compared signed (\<open><s\<close>).
\<close>

datatype Color = WHITE | BLACK | GRAY

record 'a DfsProps =
  parent :: 'a
  discovery_time :: "32 word"
  finish_time :: "32 word"
  color :: Color

type_synonym 'a DfsPropMap = "('a, 'a DfsProps) cpp_map"

text \<open>
  What \<^verbatim>\<open>dfs_visit\<close> leaves behind: the property map, which it mutates through the
  reference it is given, and its \<^verbatim>\<open>DfsResult\<close>, the time after the visit and the
  nodes visited.
\<close>

type_synonym 'a DfsResult = "'a DfsPropMap \<times> 32 word \<times> 'a list"

text \<open>
  \<^verbatim>\<open>dfs_visit\<close> with the \<^verbatim>\<open>for\<close> loop over the successors of \<open>node\<close> as
  \<open>dfs_visit_loop\<close>: its arguments are the successors still to look at and the
  variables the loop changes (the map, \<^verbatim>\<open>time\<close> and \<^verbatim>\<open>ret\<close>).
\<close>

function dfs_visit :: "'a graph \<Rightarrow> 'a \<Rightarrow> 'a DfsPropMap \<Rightarrow> 32 word \<Rightarrow> error + 'a DfsResult"
  and dfs_visit_loop :: "'a graph \<Rightarrow> 'a \<Rightarrow> 'a list \<Rightarrow> 'a DfsPropMap \<Rightarrow> 32 word \<Rightarrow> 'a list \<Rightarrow> error + 'a DfsResult"
  where
  "dfs_visit g node m passed_time =
     (let ret = [node]; time = passed_time + 1 in
      case map_modify_at node (\<lambda>p. p\<lparr>discovery_time := time\<rparr>) m of Inl e \<Rightarrow> Inl e | Inr m1 \<Rightarrow>
     (case map_modify_at node (\<lambda>p. p\<lparr>color := GRAY\<rparr>) m1 of Inl e \<Rightarrow> Inl e | Inr m2 \<Rightarrow>
     (case map_at (succ_map g) node of Inl e \<Rightarrow> Inl e | Inr neighbors \<Rightarrow>
     (case dfs_visit_loop g node neighbors m2 time ret of Inl e \<Rightarrow> Inl e | Inr (m3, time3, ret3) \<Rightarrow>
     (case map_modify_at node (\<lambda>p. p\<lparr>color := BLACK\<rparr>) m3 of Inl e \<Rightarrow> Inl e | Inr m4 \<Rightarrow>
     (let time4 = time3 + 1 in
      case map_modify_at node (\<lambda>p. p\<lparr>finish_time := time4\<rparr>) m4 of Inl e \<Rightarrow> Inl e | Inr m5 \<Rightarrow>
        Inr (m5, time4, ret3)))))))"
| "dfs_visit_loop g node [] m time ret = Inr (m, time, ret)"
| "dfs_visit_loop g node (neighbor # rest) m time ret =
     (case map_at m neighbor of Inl e \<Rightarrow> Inl e | Inr p \<Rightarrow>
       (if color p = WHITE then
          (case map_modify_at neighbor (\<lambda>p. p\<lparr>parent := node\<rparr>) m of Inl e \<Rightarrow> Inl e | Inr m1 \<Rightarrow>
          (case dfs_visit g neighbor m1 time of Inl e \<Rightarrow> Inl e | Inr (m2, time2, child_vec) \<Rightarrow>
             dfs_visit_loop g node rest m2 time2 (ret @ child_vec)))
        else dfs_visit_loop g node rest m time ret))"
  by pat_completeness auto

text \<open>
  The recursion ends: every recursive visit is on a node that is white, and turns it
  gray before it looks at anything else, so the number of white entries of the map
  goes down.
\<close>

definition whites :: "'a DfsPropMap \<Rightarrow> nat" where
  "whites m = length (filter (\<lambda>e. color (snd e) = WHITE) m)"

definition whites_but :: "'a \<Rightarrow> 'a DfsPropMap \<Rightarrow> nat" where
  "whites_but n m = length (filter (\<lambda>e. fst e \<noteq> n \<and> color (snd e) = WHITE) m)"

termination dfs_visit
proof -
  have modified: "m' = map (\<lambda>(k', v). if k' = k then (k', f v) else (k', v)) m"
    if "map_modify_at k f m = Inr m'" for k :: 'a and f m m'
    using that by (auto simp: map_modify_at_def split: if_splits)
  have same: "whites m' = whites m \<and> whites_but n m' = whites_but n m"
    if "map_modify_at k f m = Inr m'" and "\<And>p. color (f p) = color p"
    for k n :: 'a and f m m'
    unfolding modified[OF that(1)] whites_def whites_but_def
    by (induction m) (auto simp: that(2) split: if_splits)
  have nonwhite: "whites m' = whites_but k m"
    if "map_modify_at k f m = Inr m'" and "\<And>p. color (f p) \<noteq> WHITE"
    for k :: 'a and f m m'
    unfolding modified[OF that(1)] whites_def whites_but_def
    by (induction m) (auto simp: that(2) split: if_splits)
  have le: "whites_but k m \<le> whites m" for k :: 'a and m
    unfolding whites_def whites_but_def by (induction m) auto
  have less: "whites_but k m < whites m"
    if "map_at m k = Inr p" and "color p = WHITE" for k :: 'a and m p
  proof -
    from that(1) have "map_of m k = Some p" by (auto simp: map_at_def split: option.splits)
    then have "(k, p) \<in> set m" by (rule map_of_SomeD)
    then show ?thesis
    proof (induction m)
      case Nil
      then show ?case by simp
    next
      case (Cons e m)
      show ?case
      proof (cases "e = (k, p)")
        case True
        then show ?thesis using that(2) le[of k m] by (auto simp: whites_def whites_but_def)
      next
        case False
        then have "(k, p) \<in> set m" using Cons.prems by auto
        from Cons.IH[OF this] show ?thesis by (auto simp: whites_def whites_but_def)
      qed
    qed
  qed
  have visit_whites:
    "(dfs_visit_dfs_visit_loop_dom (Inl (g, node, m, t)) \<longrightarrow>
        (\<forall>m' t' vs. dfs_visit g node m t = Inr (m', t', vs) \<longrightarrow> whites m' \<le> whites_but node m))"
    "(dfs_visit_dfs_visit_loop_dom (Inr (g, node, nbs, m, t, ret)) \<longrightarrow>
        (\<forall>m' t' vs. dfs_visit_loop g node nbs m t ret = Inr (m', t', vs) \<longrightarrow> whites m' \<le> whites m))"
    for g :: "'a graph" and node m t nbs ret
  proof -
    have "(dfs_visit_dfs_visit_loop_dom (Inl (g, node, m, t)) \<Longrightarrow>
            dfs_visit g node m t = Inr (m', t', vs) \<Longrightarrow> whites m' \<le> whites_but node m)"
     and "(dfs_visit_dfs_visit_loop_dom (Inr (g, node, nbs, m, t, ret)) \<Longrightarrow>
            dfs_visit_loop g node nbs m t ret = Inr (m', t', vs) \<Longrightarrow> whites m' \<le> whites m)"
      for m' t' vs
    proof (induction g node m t and g node nbs m t ret arbitrary: m' t' vs and m' t' vs
        rule: dfs_visit_dfs_visit_loop.pinduct)
      case (1 g node m passed_time)
      from "1.prems" "1.hyps" obtain m1 m2 nbs m3 t3 r3 m4 where
        s: "map_modify_at node (\<lambda>p. p\<lparr>discovery_time := passed_time + 1\<rparr>) m = Inr m1"
        "map_modify_at node (\<lambda>p. p\<lparr>color := GRAY\<rparr>) m1 = Inr m2"
        "map_at (succ_map g) node = Inr nbs"
        "dfs_visit_loop g node nbs m2 (passed_time + 1) [node] = Inr (m3, t3, r3)"
        "map_modify_at node (\<lambda>p. p\<lparr>color := BLACK\<rparr>) m3 = Inr m4"
        "map_modify_at node (\<lambda>p. p\<lparr>finish_time := t3 + 1\<rparr>) m4 = Inr m'"
        by (auto simp: dfs_visit.psimps Let_def split: sum.splits prod.splits)
      have "whites m3 \<le> whites m2" using "1.IH"[OF refl refl s(1,2,3,4)] .
      moreover have "whites m2 = whites_but node m1" using nonwhite[OF s(2)] by simp
      moreover have "whites_but node m1 = whites_but node m" using same[OF s(1)] by simp
      moreover have "whites m4 = whites_but node m3" using nonwhite[OF s(5)] by simp
      moreover have "whites m' = whites m4" using same[OF s(6)] by simp
      ultimately show ?case using le[of node m3] by simp
    next
      case (2 g node m time ret)
      then show ?case by (simp add: dfs_visit_loop.psimps)
    next
      case (3 g node neighbor rest m time ret)
      show ?case
      proof (cases "map_at m neighbor")
        case (Inl e)
        with "3.prems" "3.hyps" show ?thesis by (simp add: dfs_visit_loop.psimps)
      next
        case (Inr p)
        show ?thesis
        proof (cases "color p = WHITE")
          case False
          with Inr "3.prems" "3.hyps"
          have "dfs_visit_loop g node rest m time ret = Inr (m', t', vs)"
            by (simp add: dfs_visit_loop.psimps)
          from "3.IH"(3)[OF Inr False this] show ?thesis .
        next
          case True
          with Inr "3.prems" "3.hyps" obtain m1 m2 t2 cv where
            s: "map_modify_at neighbor (\<lambda>p. p\<lparr>parent := node\<rparr>) m = Inr m1"
            "dfs_visit g neighbor m1 time = Inr (m2, t2, cv)"
            "dfs_visit_loop g node rest m2 t2 (ret @ cv) = Inr (m', t', vs)"
            by (auto simp: dfs_visit_loop.psimps split: sum.splits prod.splits)
          have "whites m2 \<le> whites_but neighbor m1" using "3.IH"(1)[OF Inr True s(1,2)] .
          moreover have "whites m' \<le> whites m2"
            using "3.IH"(2)[OF Inr True s(1,2) refl refl s(3)] .
          moreover have "whites_but neighbor m1 = whites_but neighbor m"
            using same[OF s(1)] by simp
          ultimately show ?thesis using le[of neighbor m] by simp
        qed
      qed
    qed
    then show
      "(dfs_visit_dfs_visit_loop_dom (Inl (g, node, m, t)) \<longrightarrow>
        (\<forall>m' t' vs. dfs_visit g node m t = Inr (m', t', vs) \<longrightarrow> whites m' \<le> whites_but node m))"
      "(dfs_visit_dfs_visit_loop_dom (Inr (g, node, nbs, m, t, ret)) \<longrightarrow>
        (\<forall>m' t' vs. dfs_visit_loop g node nbs m t ret = Inr (m', t', vs) \<longrightarrow> whites m' \<le> whites m))"
      by blast+
  qed
  show ?thesis
  proof (relation "measures
    [\<lambda>x. case x of Inl (g, node, m, t) \<Rightarrow> whites_but node m
                  | Inr (g, node, nbs, m, t, ret) \<Rightarrow> whites m,
     \<lambda>x. case x of Inl _ \<Rightarrow> 1 | Inr _ \<Rightarrow> 0,
     \<lambda>x. case x of Inl _ \<Rightarrow> 0 | Inr (g, node, nbs, m, t, ret) \<Rightarrow> length nbs]", goal_cases)
    case 1
    show ?case by simp
  next
    case (2 g node m passed_time x xa b ba bb)
    have "whites ba = whites_but node b" using nonwhite[OF 2(4)] by simp
    moreover have "whites_but node b = whites_but node m" using same[OF 2(3)] by simp
    ultimately show ?case by simp
  next
    case (3 g node neighbor rest m time ret b ba)
    have "whites_but neighbor ba = whites_but neighbor m" using same[OF 3(3)] by simp
    then show ?case using less[OF 3(1,2)] by simp
  next
    case (4 g node neighbor rest m time ret b ba bb x y xa ya)
    then have v: "dfs_visit g neighbor ba time = Inr (x, xa, ya)" by simp
    have d: "dfs_visit_dfs_visit_loop_dom (Inl (g, neighbor, ba, time))" using 4 by blast
    have "whites x \<le> whites_but neighbor ba" using visit_whites(1) d v by blast
    moreover have "whites_but neighbor ba = whites_but neighbor m" using same[OF 4(3)] by simp
    ultimately have "whites x \<le> whites m" using le[of neighbor m] by simp
    then show ?case by auto
  next
    case (5 g node neighbor rest m time ret b)
    then show ?case by simp
  qed
qed


text \<open>\<^verbatim>\<open>init_dfs_map\<close>\<close>

definition init_dfs_map :: "'a::linorder \<Rightarrow> 'a graph \<Rightarrow> 'a DfsPropMap" where
  "init_dfs_map dflt g =
     fold (\<lambda>node ret. map_assign node
             \<lparr>parent = dflt, discovery_time = - 1, finish_time = - 1, color = WHITE\<rparr> ret)
       (node_set g) []"

text \<open>
  A \<^verbatim>\<open>Comparator\<close> may throw (the one \<^verbatim>\<open>scc\<close> passes reads a map with
  \<^verbatim>\<open>at\<close>). \<^verbatim>\<open>std::sort\<close> with a comparator is modelled as an insertion sort:
  where the comparator is a strict total order on the elements, as in every use here,
  the sorted sequence is the same whatever the algorithm.
\<close>

type_synonym 'a Comparator = "'a \<Rightarrow> 'a \<Rightarrow> error + bool"

definition std_less :: "'a::linorder Comparator" where
  "std_less a b = Inr (a < b)"

fun insert_by :: "'a Comparator \<Rightarrow> 'a \<Rightarrow> 'a list \<Rightarrow> error + 'a list" where
  "insert_by cmp x [] = Inr [x]"
| "insert_by cmp x (y # ys) =
     (case cmp x y of Inl e \<Rightarrow> Inl e | Inr lt \<Rightarrow>
       (if lt then Inr (x # y # ys)
        else (case insert_by cmp x ys of Inl e \<Rightarrow> Inl e | Inr zs \<Rightarrow> Inr (y # zs))))"

fun sort_by :: "'a Comparator \<Rightarrow> 'a list \<Rightarrow> error + 'a list" where
  "sort_by cmp [] = Inr []"
| "sort_by cmp (x # xs) =
     (case sort_by cmp xs of Inl e \<Rightarrow> Inl e | Inr ys \<Rightarrow> insert_by cmp x ys)"

text \<open>The outer loop of \<^verbatim>\<open>dfs\<close> over the sorted nodes.\<close>

fun dfs_loop :: "'a graph \<Rightarrow> 'a list \<Rightarrow> 'a DfsPropMap \<Rightarrow> 32 word \<Rightarrow> error + 'a DfsPropMap" where
  "dfs_loop g [] m passed_time = Inr m"
| "dfs_loop g (node # rest) m passed_time =
     (case map_at m node of Inl e \<Rightarrow> Inl e | Inr p \<Rightarrow>
       (if color p = WHITE then
          (case dfs_visit g node m passed_time of Inl e \<Rightarrow> Inl e | Inr (m', time, _) \<Rightarrow>
             dfs_loop g rest m' time)
        else dfs_loop g rest m passed_time))"

definition dfs :: "'a::linorder \<Rightarrow> 'a graph \<Rightarrow> 'a Comparator \<Rightarrow> error + 'a DfsPropMap" where
  "dfs dflt g comparator =
     (let dfs_prop_map = init_dfs_map dflt g in
      case sort_by comparator (node_set g) of Inl e \<Rightarrow> Inl e | Inr node_vector \<Rightarrow>
        dfs_loop g node_vector dfs_prop_map 0)"

text \<open>\<^verbatim>\<open>dfs_forest\<close>: the graph of the parent pointers of a search.\<close>

definition dfs_forest :: "'a::linorder \<Rightarrow> 'a graph \<Rightarrow> 'a Comparator \<Rightarrow> error + 'a graph" where
  "dfs_forest dflt g comparator =
     (case dfs dflt g comparator of Inl e \<Rightarrow> Inl e | Inr dfs_map \<Rightarrow>
     (case fold_err (\<lambda>pair ret. raise_or_continue (add_node ret (fst pair))) dfs_map
             (empty_graph (node_printer g)) of Inl e \<Rightarrow> Inl e | Inr ret \<Rightarrow>
        fold_err (\<lambda>pair ret.
            if parent (snd pair) \<noteq> dflt
            then raise_or_continue (add_edge ret (parent (snd pair)) (fst pair))
            else Inr ret) dfs_map ret))"

subsection \<open>Strongly connected components\<close>

text \<open>The comparator of \<^verbatim>\<open>scc\<close>: decreasing finish time in \<open>dfs_map\<close>.\<close>

definition finish_time_greater :: "'a DfsPropMap \<Rightarrow> 'a Comparator" where
  "finish_time_greater dfs_map n1 n2 =
     (case map_at dfs_map n1 of Inl e \<Rightarrow> Inl e | Inr p1 \<Rightarrow>
     (case map_at dfs_map n2 of Inl e \<Rightarrow> Inl e | Inr p2 \<Rightarrow>
        Inr (finish_time p2 <s finish_time p1)))"

text \<open>
  The \<^verbatim>\<open>while\<close> loop of \<^verbatim>\<open>scc\<close>. The property map of every round is
  \<^verbatim>\<open>init_dfs_map()\<close> of the graph \<^verbatim>\<open>scc\<close> was called on; the visit runs on
  \<^verbatim>\<open>rev_dfs_forest\<close>. The loop ends because the visit returns its start node first,
  which then leaves \<^verbatim>\<open>node_vector\<close>.
\<close>

function scc_loop :: "'a::linorder \<Rightarrow> 'a graph \<Rightarrow> 'a graph \<Rightarrow> 'a list \<Rightarrow> 'a list list \<Rightarrow> error + 'a list list" where
  "scc_loop dflt g rev_dfs_forest node_vector sccs =
     (case node_vector of [] \<Rightarrow> Inr sccs
      | front_node # _ \<Rightarrow>
         (case dfs_visit rev_dfs_forest front_node (init_dfs_map dflt g) 0 of Inl e \<Rightarrow> Inl e
          | Inr (_, _, visited_nodes) \<Rightarrow>
              scc_loop dflt g rev_dfs_forest (fold removeAll visited_nodes node_vector)
                (sccs @ [visited_nodes])))"
  by pat_completeness auto
termination
proof -
  have keeps: "dfs_visit_loop g node nbs m t ret = Inr (m', t', vs) \<longrightarrow> (\<exists>ys. vs = ret @ ys)"
    for g :: "'a graph" and node nbs m t ret m' t' vs
  proof -
    have "dfs_visit g node m t = Inr (m', t', vs) \<Longrightarrow> True"
      and "dfs_visit_loop g node nbs m t ret = Inr (m', t', vs) \<Longrightarrow> \<exists>ys. vs = ret @ ys"
    proof (induction g node m t and g node nbs m t ret arbitrary: m' t' vs and m' t' vs
        rule: dfs_visit_dfs_visit_loop.induct)
      case (1 g node m passed_time)
      show ?case by simp
    next
      case (2 g node m time ret)
      then show ?case by simp
    next
      case (3 g node neighbor rest m time ret)
      show ?case
      proof (cases "map_at m neighbor")
        case (Inl e)
        with "3.prems" show ?thesis by simp
      next
        case (Inr p)
        show ?thesis
        proof (cases "color p = WHITE")
          case False
          with Inr "3.prems" have "dfs_visit_loop g node rest m time ret = Inr (m', t', vs)"
            by simp
          from "3.IH"(3)[OF Inr False this] show ?thesis .
        next
          case True
          with Inr "3.prems" obtain m1 m2 t2 cv where
            s: "map_modify_at neighbor (\<lambda>p. p\<lparr>parent := node\<rparr>) m = Inr m1"
            "dfs_visit g neighbor m1 time = Inr (m2, t2, cv)"
            "dfs_visit_loop g node rest m2 t2 (ret @ cv) = Inr (m', t', vs)"
            by (auto split: sum.splits prod.splits)
          from "3.IH"(2)[OF Inr True s(1,2) refl refl s(3)] show ?thesis by auto
        qed
      qed
    qed
    then show ?thesis by blast
  qed
  have starts: "node \<in> set vs" if "dfs_visit g node m t = Inr (m', t', vs)"
    for g :: "'a graph" and node m t m' t' vs
  proof -
    from that obtain m2 nbs m3 t3 where
      "dfs_visit_loop g node nbs m2 (t + 1) [node] = Inr (m3, t3, vs)"
      by (auto simp: Let_def split: sum.splits prod.splits)
    with keeps show ?thesis by fastforce
  qed
  have removed: "fold removeAll vs xs = filter (\<lambda>x. x \<notin> set vs) xs" for vs xs :: "'a list"
  proof (induction vs arbitrary: xs)
    case Nil
    show ?case by simp
  next
    case (Cons v vs)
    have "removeAll v xs = filter (\<lambda>x. x \<noteq> v) xs"
      by (induction xs) auto
    then show ?case by (simp add: Cons.IH conj_commute)
  qed
  show ?thesis
  proof (relation "measure (\<lambda>(dflt, g, f, node_vector, sccs). length node_vector)", goal_cases)
    case 1
    show ?case by simp
  next
    case (2 dflt g rev_dfs_forest node_vector sccs front_node rest r m y t visited_nodes)
    then have "dfs_visit rev_dfs_forest front_node (init_dfs_map dflt g) 0 = Inr (m, t, visited_nodes)"
      by simp
    from starts[OF this]
    have "length (filter (\<lambda>x. x \<notin> set visited_nodes) (front_node # rest)) \<le> length rest"
      by simp
    then show ?case using 2 by (simp add: removed)
  qed
qed

text \<open>The equation of the loop is unfolded by hand, one round at a time.\<close>

declare scc_loop.simps [simp del]

definition scc :: "'a::linorder \<Rightarrow> 'a graph \<Rightarrow> error + 'a list list" where
  "scc dflt g =
     (case dfs dflt g std_less of Inl e \<Rightarrow> Inl e | Inr dfs_map \<Rightarrow>
     (case transpose_graph g of Inl e \<Rightarrow> Inl e | Inr graph_transpose \<Rightarrow>
     (case dfs_forest dflt graph_transpose (finish_time_greater dfs_map) of Inl e \<Rightarrow> Inl e
      | Inr rev_dfs_forest \<Rightarrow>
          scc_loop dflt g rev_dfs_forest (node_set rev_dfs_forest) [])))"

section \<open>Well-formed graphs\<close>

text \<open>
  The invariant of the graph store. The node set is strictly ascending, as a
  \<^verbatim>\<open>std::set\<close> is; the keys of both adjacency maps are the nodes, in that order;
  every adjacency list is strictly ascending; and an entry \<open>b\<close> in the successor list of
  \<open>a\<close> has \<open>a\<close> in the predecessor list of \<open>b\<close>, and the other way round.
\<close>

text \<open>The successors and the predecessors of a node, as sets.\<close>

definition succs :: "'a graph \<Rightarrow> 'a \<Rightarrow> 'a set" where
  "succs g a = (case map_of (succ_map g) a of None \<Rightarrow> {} | Some l \<Rightarrow> set l)"

definition preds :: "'a graph \<Rightarrow> 'a \<Rightarrow> 'a set" where
  "preds g b = (case map_of (pred_map g) b of None \<Rightarrow> {} | Some l \<Rightarrow> set l)"

definition adjacency_ok :: "('a::linorder, 'a list) cpp_map \<Rightarrow> ('a, 'a list) cpp_map \<Rightarrow> bool" where
  "adjacency_ok m m' \<longleftrightarrow>
     (\<forall>e \<in> set m. sorted_wrt (<) (snd e) \<and>
        (\<forall>b \<in> set (snd e). case map_of m' b of None \<Rightarrow> False | Some l \<Rightarrow> fst e \<in> set l))"

definition wf_graph :: "'a::linorder graph \<Rightarrow> bool" where
  "wf_graph g \<longleftrightarrow>
     sorted_wrt (<) (node_set g) \<and>
     map fst (succ_map g) = node_set g \<and>
     map fst (pred_map g) = node_set g \<and>
     adjacency_ok (succ_map g) (pred_map g) \<and>
     adjacency_ok (pred_map g) (succ_map g)"

text \<open>The graphs a program can hold: built from the empty graph by calls of
  \<^verbatim>\<open>add_node\<close> and \<^verbatim>\<open>add_edge\<close>, whether they throw or not.\<close>

inductive built :: "'a::linorder graph \<Rightarrow> bool" where
  built_empty: "built (empty_graph p)"
| built_add_node: "built g \<Longrightarrow> built (snd (add_node g n))"
| built_add_edge: "built g \<Longrightarrow> built (snd (add_edge g a b))"

text \<open>One entry of a map after \<^verbatim>\<open>m.at(k)\<close> was changed by \<open>f\<close>.\<close>

definition modify_entry :: "'k \<Rightarrow> ('v \<Rightarrow> 'v) \<Rightarrow> 'k \<times> 'v \<Rightarrow> 'k \<times> 'v" where
  "modify_entry k f e = (if fst e = k then (fst e, f (snd e)) else e)"

text \<open>The graph with the edge from \<open>a\<close> to \<open>b\<close> added to both sorted lists.\<close>

definition with_edge :: "'a::linorder graph \<Rightarrow> 'a \<Rightarrow> 'a \<Rightarrow> 'a graph" where
  "with_edge g a b =
     g\<lparr>succ_map := map (modify_entry a (\<lambda>l. sort (l @ [b]))) (succ_map g),
       pred_map := map (modify_entry b (\<lambda>l. sort (l @ [a]))) (pred_map g)\<rparr>"

section \<open>Definitions for the proofs\<close>

text \<open>A node printer, and the graph with the nodes 1 and 2 and no edge.\<close>

definition no_printer :: "'a \<Rightarrow> string" where
  "no_printer n = []"

definition two_nodes :: "int graph" where
  "two_nodes = snd (add_node (snd (add_node (empty_graph no_printer) 1)) 2)"

text \<open>The edges of an adjacency map, in the order in which the nested loops over the map
  and over each list meet them.\<close>

definition edge_list :: "('a, 'a list) cpp_map \<Rightarrow> ('a \<times> 'a) list" where
  "edge_list m = concat (map (\<lambda>e. map (Pair (fst e)) (snd e)) m)"

text \<open>The graph with every adjacency list emptied.\<close>

definition cleared :: "'a graph \<Rightarrow> 'a graph" where
  "cleared g = g\<lparr>succ_map := map (\<lambda>e. (fst e, [])) (succ_map g),
                 pred_map := map (\<lambda>e. (fst e, [])) (pred_map g)\<rparr>"

text \<open>The sources of the edges into \<open>k\<close>, and the targets of the edges out of \<open>k\<close>,
  in the order of an edge list.\<close>

definition sources_of :: "'a \<Rightarrow> ('a \<times> 'a) list \<Rightarrow> 'a list" where
  "sources_of k es = map fst (filter (\<lambda>e. snd e = k) es)"

definition targets_of :: "'a \<Rightarrow> ('a \<times> 'a) list \<Rightarrow> 'a list" where
  "targets_of k es = map snd (filter (\<lambda>e. fst e = k) es)"

text \<open>The graph with the two adjacency maps exchanged.\<close>

definition swapped :: "'a graph \<Rightarrow> 'a graph" where
  "swapped g = g\<lparr>succ_map := pred_map g, pred_map := succ_map g\<rparr>"

text \<open>Graphs over the nodes 1 and 2 with one edge, and with both.\<close>

definition one_edge :: "int graph" where
  "one_edge = snd (add_edge two_nodes 2 1)"

definition other_edge :: "int graph" where
  "other_edge = snd (add_edge two_nodes 1 2)"

definition both_edges :: "int graph" where
  "both_edges = \<lparr>node_set = [1, 2], succ_map = [(1, [2]), (2, [1])],
               pred_map = [(1, [2]), (2, [1])], node_printer = no_printer\<rparr>"

text \<open>
  The sequences returned by the recursive calls of \<^verbatim>\<open>dfs_visit\<close> on the successors of
  \<open>node\<close>, one for each successor that is white when the loop reaches it, in the
  order of the successor list; with the map and the time after the last of them.
\<close>

fun visit_children :: "'a graph \<Rightarrow> 'a \<Rightarrow> 'a list \<Rightarrow> 'a DfsPropMap \<Rightarrow> 32 word
    \<Rightarrow> error + ('a DfsPropMap \<times> 32 word \<times> 'a list list)" where
  "visit_children g node [] m time = Inr (m, time, [])"
| "visit_children g node (neighbor # rest) m time =
     (case map_at m neighbor of Inl e \<Rightarrow> Inl e | Inr p \<Rightarrow>
       (if color p = WHITE then
          (case map_modify_at neighbor (\<lambda>p. p\<lparr>parent := node\<rparr>) m of Inl e \<Rightarrow> Inl e | Inr m1 \<Rightarrow>
          (case dfs_visit g neighbor m1 time of Inl e \<Rightarrow> Inl e | Inr (m2, time2, child_vec) \<Rightarrow>
          (case visit_children g node rest m2 time2 of Inl e \<Rightarrow> Inl e
           | Inr (m3, time3, child_vecs) \<Rightarrow> Inr (m3, time3, child_vec # child_vecs))))
        else visit_children g node rest m time))"

text \<open>
  The map after \<^verbatim>\<open>dfs_visit\<close> has set the discovery time and the colour gray of
  \<open>node\<close>, and after it has set the colour black and the finish time.
\<close>

definition discover :: "'a \<Rightarrow> 32 word \<Rightarrow> 'a DfsPropMap \<Rightarrow> 'a DfsPropMap" where
  "discover node time m = map (modify_entry node (\<lambda>p. p\<lparr>discovery_time := time, color := GRAY\<rparr>)) m"

definition finish :: "'a \<Rightarrow> 32 word \<Rightarrow> 'a DfsPropMap \<Rightarrow> 'a DfsPropMap" where
  "finish node time m = map (modify_entry node (\<lambda>p. p\<lparr>color := BLACK, finish_time := time\<rparr>)) m"

text \<open>A graph with the edges 1 \<rightarrow> 2, 1 \<rightarrow> 3 and 2 \<rightarrow> 3.\<close>

definition three_nodes :: "int graph" where
  "three_nodes = snd (add_node two_nodes 3)"

definition dag3 :: "int graph" where
  "dag3 = snd (add_edge (snd (add_edge (snd (add_edge three_nodes 1 2)) 1 3)) 2 3)"

text \<open>
  The graph with the edges 1 \<rightarrow> 3, 3 \<rightarrow> 2 and 2 \<rightarrow> 3: the nodes 2 and 3 are on a cycle
  that the search enters at 3.
\<close>

definition cycle_entered_at_3 :: "int graph" where
  "cycle_entered_at_3 = snd (add_edge (snd (add_edge (snd (add_edge three_nodes 1 3)) 3 2)) 2 3)"

text \<open>
  Scenario A with \<^verbatim>\<open>std::string\<close> nodes, whose value-initialised node is the empty
  string: the nodes A, B and C and the edges A \<rightarrow> B, B \<rightarrow> C and C \<rightarrow> A.
\<close>

definition abc_nodes :: "string graph" where
  "abc_nodes = snd (add_node (snd (add_node (snd (add_node (empty_graph id) ''A'')) ''B'')) ''C'')"

definition scenario_a :: "string graph" where
  "scenario_a =
     snd (add_edge (snd (add_edge (snd (add_edge abc_nodes ''A'' ''B'')) ''B'' ''C'')) ''C'' ''A'')"

text \<open>A cycle through three nodes of any type.\<close>

definition three_cycle :: "('a \<Rightarrow> string) \<Rightarrow> 'a::linorder \<Rightarrow> 'a \<Rightarrow> 'a \<Rightarrow> 'a graph" where
  "three_cycle p a b c =
    \<lparr>node_set = [a, b, c], succ_map = [(a, [b]), (b, [c]), (c, [a])],
     pred_map = [(a, [c]), (b, [a]), (c, [b])], node_printer = p\<rparr>"

section \<open>Facts about the containers\<close>

lemma map_of_map_assign: "map_of (map_assign k v m) = (map_of m)(k \<mapsto> v)"
  by (induction m) (auto simp: fun_eq_iff)

lemma set_set_insert: "set (set_insert x s) = insert x (set s)"
  by (auto simp: set_insert_def set_insort_key)

lemma sorted_set_insert: "sorted_wrt (<) s \<Longrightarrow> sorted_wrt (<) (set_insert x s)"
  by (auto simp: set_insert_def strict_sorted_iff sorted_insort distinct_insort)

lemma keys_map_assign:
  "sorted_wrt (<) (map fst m) \<Longrightarrow> map fst (map_assign k v m) = set_insert k (map fst m)"
proof (induction m)
  case Nil
  show ?case by (simp add: set_insert_def)
next
  case (Cons e m)
  obtain k' v' where e: "e = (k', v')" by (cases e)
  from Cons.prems have lt: "\<forall>x \<in> set (map fst m). k' < x" and s: "sorted_wrt (<) (map fst m)"
    by (auto simp: e)
  show ?case
  proof (cases "k < k'")
    case True
    with lt have "k \<notin> set (map fst m)" by auto
    with True show ?thesis by (auto simp: e set_insert_def)
  next
    case False
    show ?thesis
    proof (cases "k = k'")
      case True then show ?thesis by (simp add: e set_insert_def)
    next
      case ne: False
      with False have "k' < k" by simp
      with Cons.IH[OF s] ne show ?thesis by (auto simp: e set_insert_def)
    qed
  qed
qed

lemma map_at_eq_Inr: "map_at m k = Inr v \<longleftrightarrow> map_of m k = Some v"
  by (simp add: map_at_def split: option.splits)

lemma map_at_eq_Inl: "map_at m k = Inl e \<longleftrightarrow> map_of m k = None \<and> e = OutOfRange"
  by (auto simp: map_at_def split: option.splits)

lemma map_at_Inr_iff_key: "(\<exists>v. map_at m k = Inr v) \<longleftrightarrow> k \<in> fst ` set m"
  unfolding map_at_def using map_of_eq_None_iff[of m k] by (cases "map_of m k") auto

lemma map_modify_at_eq:
  "map_modify_at k f m =
     (if k \<in> fst ` set m then Inr (map (modify_entry k f) m) else Inl OutOfRange)"
proof -
  have "(\<lambda>(k', v). if k' = k then (k', f v) else (k', v)) = modify_entry k f"
    by (auto simp: modify_entry_def fun_eq_iff)
  then show ?thesis by (simp add: map_modify_at_def map_of_eq_None_iff)
qed

lemma fst_modify_entry: "fst (modify_entry k f e) = fst e"
  by (simp add: modify_entry_def)

lemma modify_entry_modify_entry:
  "modify_entry k f (modify_entry k h e) = modify_entry k (\<lambda>v. f (h v)) e"
  by (simp add: modify_entry_def)

lemma keys_modify_entry_comp: "map (fst \<circ> modify_entry k f) m = map fst m"
  by (simp add: fst_modify_entry)

lemma keys_modify_entry: "map fst (map (modify_entry k f) m) = map fst m"
  by (induction m) (auto simp: modify_entry_def)

lemma map_of_modify_entry:
  "map_of (map (modify_entry k f) m) x = (if x = k then map_option f (map_of m k) else map_of m x)"
  by (induction m) (auto simp: modify_entry_def)

lemma modify_entry_twice:
  "map (modify_entry k f) (map (modify_entry k h) m) = map (modify_entry k (f \<circ> h)) m"
  by (induction m) (auto simp: modify_entry_def)

lemma modify_entry_id:
  "\<forall>v. (k, v) \<in> set m \<longrightarrow> f v = v \<Longrightarrow> map (modify_entry k f) m = m"
  by (induction m) (auto simp: modify_entry_def)

lemma assoc_list_eqI:
  assumes "map fst m = map fst m'" and "distinct (map fst m)" and "map_of m = map_of m'"
  shows "m = m'"
  using assms
proof (induction m arbitrary: m')
  case Nil
  then show ?case by simp
next
  case (Cons e m)
  then obtain e' r where m': "m' = e' # r" by (cases m') auto
  obtain k v where e: "e = (k, v)" by (cases e)
  obtain k' v' where e': "e' = (k', v')" by (cases e')
  from Cons.prems(1) have kk: "k' = k" and keys: "map fst m = map fst r" by (auto simp: m' e e')
  have pt: "map_of (e # m) x = map_of m' x" for x by (simp only: Cons.prems(3))
  from pt[of k] have vv: "v' = v" by (simp add: m' e e' kk)
  have "map_of m = map_of r"
  proof
    fix x
    show "map_of m x = map_of r x"
    proof (cases "x = k")
      case True
      from Cons.prems(2) have "k \<notin> fst ` set m" by (auto simp: e)
      moreover from this keys have "k \<notin> fst ` set r" by (metis list.set_map)
      ultimately show ?thesis by (simp add: True map_of_eq_None_iff[THEN iffD2])
    next
      case False
      from pt[of x] False show ?thesis by (simp add: m' e e' kk)
    qed
  qed
  with Cons.IH[OF keys _ this] Cons.prems(2) show ?case by (simp add: m' e e' kk vv)
qed

lemma sorted_lists_eqI:
  "sorted_wrt (<) (xs :: 'a::linorder list) \<Longrightarrow> sorted_wrt (<) ys \<Longrightarrow> set xs = set ys \<Longrightarrow> xs = ys"
  by (simp add: strict_sorted_iff sorted_distinct_set_unique)

lemma fold_err_append:
  "fold_err f (xs @ ys) s = (case fold_err f xs s of Inl e \<Rightarrow> Inl e | Inr s' \<Rightarrow> fold_err f ys s')"
  by (induction xs arbitrary: s) (auto split: sum.splits)

section \<open>Facts about well-formed graphs\<close>

lemma adjacency_ok_iff:
  assumes "distinct (map fst m)"
  shows "adjacency_ok m m' \<longleftrightarrow>
    (\<forall>a l. map_of m a = Some l \<longrightarrow>
       sorted_wrt (<) l \<and> (\<forall>b \<in> set l. \<exists>l'. map_of m' b = Some l' \<and> a \<in> set l'))"
proof -
  have "adjacency_ok m m' \<longleftrightarrow>
    (\<forall>a l. (a, l) \<in> set m \<longrightarrow>
       sorted_wrt (<) l \<and> (\<forall>b \<in> set l. \<exists>l'. map_of m' b = Some l' \<and> a \<in> set l'))"
    unfolding adjacency_ok_def by (auto split: option.splits) fastforce+
  then show ?thesis using assms by simp
qed

lemma wf_graph_iff:
  "wf_graph g \<longleftrightarrow>
     sorted_wrt (<) (node_set g) \<and>
     map fst (succ_map g) = node_set g \<and>
     map fst (pred_map g) = node_set g \<and>
     (\<forall>a b. b \<in> succs g a \<longleftrightarrow> a \<in> preds g b) \<and>
     (\<forall>a l. map_of (succ_map g) a = Some l \<longrightarrow> sorted_wrt (<) l) \<and>
     (\<forall>a l. map_of (pred_map g) a = Some l \<longrightarrow> sorted_wrt (<) l)"
  (is "?L \<longleftrightarrow> ?R")
proof
  assume L: ?L
  then have d: "distinct (map fst (succ_map g))" "distinct (map fst (pred_map g))"
    by (auto simp: wf_graph_def strict_sorted_iff)
  from L have a: "adjacency_ok (succ_map g) (pred_map g)" "adjacency_ok (pred_map g) (succ_map g)"
    by (auto simp: wf_graph_def)
  have "b \<in> succs g a \<longleftrightarrow> a \<in> preds g b" for a b
    using a[unfolded adjacency_ok_iff[OF d(1)] adjacency_ok_iff[OF d(2)]]
    by (fastforce simp: succs_def preds_def split: option.splits)
  moreover have "map_of (succ_map g) a = Some l \<longrightarrow> sorted_wrt (<) l" for a l
    using a(1)[unfolded adjacency_ok_iff[OF d(1)]] by blast
  moreover have "map_of (pred_map g) a = Some l \<longrightarrow> sorted_wrt (<) l" for a l
    using a(2)[unfolded adjacency_ok_iff[OF d(2)]] by blast
  ultimately show ?R using L by (simp add: wf_graph_def)
next
  assume R: ?R
  then have d: "distinct (map fst (succ_map g))" "distinct (map fst (pred_map g))"
    by (auto simp: strict_sorted_iff)
  from R have sym: "\<And>a b. b \<in> succs g a \<longleftrightarrow> a \<in> preds g b" by blast
  have "adjacency_ok (succ_map g) (pred_map g)"
    unfolding adjacency_ok_iff[OF d(1)]
  proof (intro allI impI conjI ballI)
    fix a l assume "map_of (succ_map g) a = Some l"
    then show "sorted_wrt (<) l" using R by blast
  next
    fix a l b assume "map_of (succ_map g) a = Some l" "b \<in> set l"
    then have "b \<in> succs g a" by (simp add: succs_def)
    then have "a \<in> preds g b" by (simp add: sym)
    then show "\<exists>l'. map_of (pred_map g) b = Some l' \<and> a \<in> set l'"
      by (auto simp: preds_def split: option.splits)
  qed
  moreover have "adjacency_ok (pred_map g) (succ_map g)"
    unfolding adjacency_ok_iff[OF d(2)]
  proof (intro allI impI conjI ballI)
    fix a l assume "map_of (pred_map g) a = Some l"
    then show "sorted_wrt (<) l" using R by blast
  next
    fix a l b assume "map_of (pred_map g) a = Some l" "b \<in> set l"
    then have "b \<in> preds g a" by (simp add: preds_def)
    then have "a \<in> succs g b" by (simp add: sym)
    then show "\<exists>l'. map_of (succ_map g) b = Some l' \<and> a \<in> set l'"
      by (auto simp: succs_def split: option.splits)
  qed
  ultimately show ?L using R by (simp add: wf_graph_def)
qed

lemma wf_graph_keys:
  assumes "wf_graph g"
  shows "fst ` set (succ_map g) = set (node_set g)" "fst ` set (pred_map g) = set (node_set g)"
    "distinct (map fst (succ_map g))" "distinct (map fst (pred_map g))" "distinct (node_set g)"
  using assms by (auto simp: wf_graph_def strict_sorted_iff simp flip: set_map)

lemma wf_graph_sym: "wf_graph g \<Longrightarrow> b \<in> succs g a \<longleftrightarrow> a \<in> preds g b"
  by (simp add: wf_graph_iff)

lemma succs_nodes: "wf_graph g \<Longrightarrow> b \<in> succs g a \<Longrightarrow> a \<in> set (node_set g) \<and> b \<in> set (node_set g)"
proof -
  assume w: "wf_graph g" and s: "b \<in> succs g a"
  from s obtain l where "map_of (succ_map g) a = Some l" by (auto simp: succs_def split: option.splits)
  then have "a \<in> fst ` set (succ_map g)" by (metis map_of_eq_None_iff option.distinct(1))
  moreover from s w have "a \<in> preds g b" by (simp add: wf_graph_sym)
  then obtain l' where "map_of (pred_map g) b = Some l'" by (auto simp: preds_def split: option.splits)
  then have "b \<in> fst ` set (pred_map g)" by (metis map_of_eq_None_iff option.distinct(1))
  ultimately show ?thesis using wf_graph_keys[OF w] by simp
qed

lemma wf_graph_lookup:
  assumes "wf_graph g" and "a \<in> set (node_set g)"
  shows "\<exists>l. map_of (succ_map g) a = Some l \<and> sorted_wrt (<) l \<and> set l = succs g a"
    and "\<exists>l. map_of (pred_map g) a = Some l \<and> sorted_wrt (<) l \<and> set l = preds g a"
proof -
  from assms wf_graph_keys(1,2)[OF assms(1)]
  have "map_of (succ_map g) a \<noteq> None" "map_of (pred_map g) a \<noteq> None"
    by (simp_all add: map_of_eq_None_iff)
  then obtain l l' where l: "map_of (succ_map g) a = Some l" "map_of (pred_map g) a = Some l'" by auto
  with assms(1) have "sorted_wrt (<) l" "sorted_wrt (<) l'" unfolding wf_graph_iff by blast+
  with l show "\<exists>l. map_of (succ_map g) a = Some l \<and> sorted_wrt (<) l \<and> set l = succs g a"
    and "\<exists>l. map_of (pred_map g) a = Some l \<and> sorted_wrt (<) l \<and> set l = preds g a"
    by (simp_all add: succs_def preds_def)
qed

lemma wf_empty_graph: "wf_graph (empty_graph p)"
  by (simp add: wf_graph_def empty_graph_def adjacency_ok_def)

subsection \<open>add_node\<close>

lemma add_node_result:
  "add_node g n =
     (if n \<in> set (node_set g) then (Some DuplicateNode, g)
      else (None, g\<lparr>node_set := set_insert n (node_set g),
                     succ_map := map_assign n [] (succ_map g),
                     pred_map := map_assign n [] (pred_map g)\<rparr>))"
  by (simp add: add_node_def)

lemma add_node_wf:
  assumes w: "wf_graph g"
  shows "wf_graph (snd (add_node g n))"
proof (cases "n \<in> set (node_set g)")
  case True
  then show ?thesis using w by (simp add: add_node_def)
next
  case False
  define g' where "g' = g\<lparr>node_set := set_insert n (node_set g),
                     succ_map := map_assign n [] (succ_map g),
                     pred_map := map_assign n [] (pred_map g)\<rparr>"
  from w have W: "sorted_wrt (<) (node_set g)" "map fst (succ_map g) = node_set g"
    "map fst (pred_map g) = node_set g" "\<And>a b. b \<in> succs g a \<longleftrightarrow> a \<in> preds g b"
    "\<And>a l. map_of (succ_map g) a = Some l \<Longrightarrow> sorted_wrt (<) l"
    "\<And>a l. map_of (pred_map g) a = Some l \<Longrightarrow> sorted_wrt (<) l"
    unfolding wf_graph_iff by blast+
  from False wf_graph_keys(1,2)[OF w]
  have none: "map_of (succ_map g) n = None" "map_of (pred_map g) n = None"
    by (simp_all add: map_of_eq_None_iff)
  have s: "succs g' = succs g" and p: "preds g' = preds g"
    using none by (auto simp: g'_def succs_def preds_def map_of_map_assign fun_eq_iff)
  have "wf_graph g'"
    unfolding wf_graph_iff s p
  proof (intro conjI allI impI)
    show "sorted_wrt (<) (node_set g')" using W(1) by (simp add: g'_def sorted_set_insert)
    show "map fst (succ_map g') = node_set g'"
      using keys_map_assign[of "succ_map g" n "[]"] W(1,2) by (simp add: g'_def)
    show "map fst (pred_map g') = node_set g'"
      using keys_map_assign[of "pred_map g" n "[]"] W(1,3) by (simp add: g'_def)
    show "b \<in> succs g a \<longleftrightarrow> a \<in> preds g b" for a b by (rule W(4))
    show "sorted_wrt (<) l" if "map_of (succ_map g') a = Some l" for a l
      using that W(5)[of a l] by (auto simp: g'_def map_of_map_assign split: if_splits)
    show "sorted_wrt (<) l" if "map_of (pred_map g') a = Some l" for a l
      using that W(6)[of a l] by (auto simp: g'_def map_of_map_assign split: if_splits)
  qed
  then show ?thesis using False by (simp add: add_node_def g'_def)
qed

lemma add_node_node_set:
  "set (node_set (snd (add_node g n))) = insert n (set (node_set g))"
  by (auto simp: add_node_def set_set_insert)

subsection \<open>add_edge\<close>

lemma add_edge_old:
  assumes w: "wf_graph g" and s: "b \<in> succs g a"
  shows "add_edge g a b = (None, g)"
proof -
  from succs_nodes[OF w s] have n: "a \<in> set (node_set g)" "b \<in> set (node_set g)" by simp_all
  from s obtain l where l: "map_of (succ_map g) a = Some l" "b \<in> set l"
    by (auto simp: succs_def split: option.splits)
  from s w have "a \<in> preds g b" by (simp add: wf_graph_sym)
  then obtain l' where l': "map_of (pred_map g) b = Some l'" "a \<in> set l'"
    by (auto simp: preds_def split: option.splits)
  show ?thesis using n l l' by (simp add: add_edge_def map_at_def)
qed

lemma add_edge_new:
  assumes w: "wf_graph g" and n: "a \<in> set (node_set g)" "b \<in> set (node_set g)"
    and s: "b \<notin> succs g a"
  shows "add_edge g a b = (None, with_edge g a b)"
proof -
  from wf_graph_lookup(1)[OF w n(1)] obtain l where l: "map_of (succ_map g) a = Some l" "set l = succs g a"
    by blast
  have k: "a \<in> fst ` set (succ_map g)" "b \<in> fst ` set (pred_map g)"
    using n wf_graph_keys(1,2)[OF w] by simp_all
  have k': "a \<in> fst ` set (map (modify_entry a f) (succ_map g))"
           "b \<in> fst ` set (map (modify_entry b f) (pred_map g))" for f
    using k keys_modify_entry[of a f "succ_map g"] keys_modify_entry[of b f "pred_map g"]
    by (metis set_map)+
  show ?thesis
    using n l s k k'
    by (simp add: add_edge_def map_at_def map_modify_at_eq Let_def with_edge_def
        modify_entry_modify_entry)
qed

lemma succs_with_edge:
  assumes "a \<in> fst ` set (succ_map g)"
  shows "succs (with_edge g a b) x = (if x = a then insert b (succs g a) else succs g x)"
proof -
  from assms obtain l where "map_of (succ_map g) a = Some l"
    by (metis map_of_eq_None_iff not_None_eq)
  then show ?thesis
    by (auto simp: succs_def with_edge_def map_of_modify_entry)
qed

lemma preds_with_edge:
  assumes "b \<in> fst ` set (pred_map g)"
  shows "preds (with_edge g a b) x = (if x = b then insert a (preds g b) else preds g x)"
proof -
  from assms obtain l where "map_of (pred_map g) b = Some l"
    by (metis map_of_eq_None_iff not_None_eq)
  then show ?thesis
    by (auto simp: preds_def with_edge_def map_of_modify_entry)
qed

lemma sorted_sort_snoc:
  "sorted_wrt (<) (l :: 'a::linorder list) \<Longrightarrow> x \<notin> set l \<Longrightarrow> sorted_wrt (<) (sort (l @ [x]))"
  by (simp add: strict_sorted_iff)

lemma with_edge_wf:
  assumes w: "wf_graph g" and n: "a \<in> set (node_set g)" "b \<in> set (node_set g)"
    and s: "b \<notin> succs g a"
  shows "wf_graph (with_edge g a b)"
proof -
  from w have W: "sorted_wrt (<) (node_set g)" "map fst (succ_map g) = node_set g"
    "map fst (pred_map g) = node_set g" "\<And>a b. b \<in> succs g a \<longleftrightarrow> a \<in> preds g b"
    "\<And>a l. map_of (succ_map g) a = Some l \<Longrightarrow> sorted_wrt (<) l"
    "\<And>a l. map_of (pred_map g) a = Some l \<Longrightarrow> sorted_wrt (<) l"
    unfolding wf_graph_iff by blast+
  have k: "a \<in> fst ` set (succ_map g)" "b \<in> fst ` set (pred_map g)"
    using n wf_graph_keys(1,2)[OF w] by simp_all
  from s W(4) have s': "a \<notin> preds g b" by simp
  show ?thesis
    unfolding wf_graph_iff succs_with_edge[OF k(1)] preds_with_edge[OF k(2)]
  proof (intro conjI allI impI)
    show "sorted_wrt (<) (node_set (with_edge g a b))" using W(1) by (simp add: with_edge_def)
    show "map fst (succ_map (with_edge g a b)) = node_set (with_edge g a b)"
      using W(2) by (simp add: with_edge_def keys_modify_entry_comp)
    show "map fst (pred_map (with_edge g a b)) = node_set (with_edge g a b)"
      using W(3) by (simp add: with_edge_def keys_modify_entry_comp)
    show "(ba \<in> (if aa = a then insert b (succs g a) else succs g aa)) =
          (aa \<in> (if ba = b then insert a (preds g b) else preds g ba))" for aa ba
      using W(4) by auto
    show "sorted_wrt (<) l" if "map_of (succ_map (with_edge g a b)) x = Some l" for x l
    proof (cases "x = a")
      case True
      with that obtain l0 where l0: "map_of (succ_map g) a = Some l0" "l = sort (l0 @ [b])"
        by (auto simp: with_edge_def map_of_modify_entry)
      with s have "b \<notin> set l0" by (simp add: succs_def)
      with W(5)[OF l0(1)] show ?thesis by (simp add: l0(2) sorted_sort_snoc)
    next
      case False
      with that W(5)[of x l] show ?thesis by (simp add: with_edge_def map_of_modify_entry)
    qed
    show "sorted_wrt (<) l" if "map_of (pred_map (with_edge g a b)) x = Some l" for x l
    proof (cases "x = b")
      case True
      with that obtain l0 where l0: "map_of (pred_map g) b = Some l0" "l = sort (l0 @ [a])"
        by (auto simp: with_edge_def map_of_modify_entry)
      with s' have "a \<notin> set l0" by (simp add: preds_def)
      with W(6)[OF l0(1)] show ?thesis by (simp add: l0(2) sorted_sort_snoc)
    next
      case False
      with that W(6)[of x l] show ?thesis by (simp add: with_edge_def map_of_modify_entry)
    qed
  qed
qed

text \<open>What \<^verbatim>\<open>add_edge\<close> does on a well-formed graph, in one statement.\<close>

lemma add_edge_wf_cases:
  assumes w: "wf_graph g"
  shows "add_edge g a b =
     (if a \<notin> set (node_set g) then (Some (UnknownNode FromNode), g)
      else if b \<notin> set (node_set g) then (Some (UnknownNode ToNode), g)
      else if b \<in> succs g a then (None, g)
      else (None, with_edge g a b))"
proof -
  consider "a \<notin> set (node_set g)" | "a \<in> set (node_set g)" "b \<notin> set (node_set g)"
    | "a \<in> set (node_set g)" "b \<in> set (node_set g)" "b \<in> succs g a"
    | "a \<in> set (node_set g)" "b \<in> set (node_set g)" "b \<notin> succs g a" by blast
  then show ?thesis
  proof cases
    case 1 then show ?thesis by (simp add: add_edge_def)
  next
    case 2 then show ?thesis by (simp add: add_edge_def)
  next
    case 3 then show ?thesis using add_edge_old[OF w 3(3)] by simp
  next
    case 4 then show ?thesis using add_edge_new[OF w 4] by simp
  qed
qed

lemma add_edge_wf:
  assumes w: "wf_graph g"
  shows "wf_graph (snd (add_edge g a b))"
  using w with_edge_wf[OF w, of a b] by (simp add: add_edge_wf_cases[OF w])

lemma add_edge_node_set: "wf_graph g \<Longrightarrow> node_set (snd (add_edge g a b)) = node_set g"
  by (simp add: add_edge_wf_cases with_edge_def)

lemma add_edge_succs:
  assumes w: "wf_graph g" and n: "a \<in> set (node_set g)" "b \<in> set (node_set g)"
  shows "fst (add_edge g a b) = None"
    and "succs (snd (add_edge g a b)) = (succs g)(a := insert b (succs g a))"
proof -
  have k: "a \<in> fst ` set (succ_map g)"
    using n wf_graph_keys(1)[OF w] by simp
  show "fst (add_edge g a b) = None" using n by (simp add: add_edge_wf_cases[OF w])
  show "succs (snd (add_edge g a b)) = (succs g)(a := insert b (succs g a))"
    using n by (auto simp: add_edge_wf_cases[OF w] succs_with_edge[OF k] fun_eq_iff)
qed

lemma built_wf: "built g \<Longrightarrow> wf_graph g"
  by (induction rule: built.induct) (simp_all add: wf_empty_graph add_node_wf add_edge_wf)

section \<open>The graph store: claims\<close>

lemma two_nodes_eq:
  "two_nodes = \<lparr>node_set = [1, 2], succ_map = [(1, []), (2, [])],
                pred_map = [(1, []), (2, [])], node_printer = no_printer\<rparr>"
  by (simp add: two_nodes_def add_node_def empty_graph_def set_insert_def)

lemma built_two_nodes: "built two_nodes"
  unfolding two_nodes_def by (intro built.intros)

lemma wf_two_nodes: "wf_graph two_nodes"
  by (rule built_wf[OF built_two_nodes])

text \<open>
  Claim C7. \<^verbatim>\<open>add_node(n)\<close> throws, and then it is the duplicate-node error,
  exactly when \<open>n\<close> is already in the node set, and it then leaves the graph as it
  was. When it does not throw, \<open>n\<close> has joined the node set with an empty successor
  list and an empty predecessor list, the entries of the other nodes are as before, and a
  second \<^verbatim>\<open>add_node(n)\<close> throws the duplicate-node error.
\<close>
theorem add_node_duplicate:
  "(fst (add_node g n) = Some DuplicateNode \<longleftrightarrow> n \<in> set (node_set g)) \<and>
   (fst (add_node g n) = None \<longleftrightarrow> n \<notin> set (node_set g)) \<and>
   (n \<in> set (node_set g) \<longrightarrow> snd (add_node g n) = g) \<and>
   (n \<notin> set (node_set g) \<longrightarrow>
      set (node_set (snd (add_node g n))) = insert n (set (node_set g)) \<and>
      map_at (succ_map (snd (add_node g n))) n = Inr [] \<and>
      map_at (pred_map (snd (add_node g n))) n = Inr [] \<and>
      (\<forall>k. k \<noteq> n \<longrightarrow>
         map_at (succ_map (snd (add_node g n))) k = map_at (succ_map g) k \<and>
         map_at (pred_map (snd (add_node g n))) k = map_at (pred_map g) k)) \<and>
   fst (add_node (snd (add_node g n)) n) = Some DuplicateNode"
  by (auto simp: add_node_def set_set_insert map_at_def map_of_map_assign)

theorem add_node_duplicate_witness:
  "fst (add_node two_nodes 3) = None \<and>
   set (node_set (snd (add_node two_nodes 3))) = {1, 2, 3} \<and>
   map_at (succ_map (snd (add_node two_nodes 3))) 3 = Inr [] \<and>
   map_at (pred_map (snd (add_node two_nodes 3))) 3 = Inr [] \<and>
   fst (add_node (snd (add_node two_nodes 3)) 3) = Some DuplicateNode \<and>
   add_node two_nodes 2 = (Some DuplicateNode, two_nodes)"
  using add_node_duplicate[of two_nodes 3] add_node_duplicate[of two_nodes 2]
  by (simp add: two_nodes_eq prod_eq_iff insert_commute)

text \<open>
  Claim C10. When \<^verbatim>\<open>add_edge(from, to)\<close> throws because an endpoint is not in
  the node set, the graph is exactly as it was before the call: both membership checks
  come before any change of the adjacency maps. A missing \<open>from\<close> and a missing
  \<open>to\<close> do throw, with the error that names the endpoint.
\<close>
theorem add_edge_unknown_node_unchanged:
  "(fst (add_edge g a b) = Some (UnknownNode ep) \<longrightarrow> snd (add_edge g a b) = g) \<and>
   (a \<notin> set (node_set g) \<longrightarrow> add_edge g a b = (Some (UnknownNode FromNode), g)) \<and>
   (a \<in> set (node_set g) \<and> b \<notin> set (node_set g) \<longrightarrow>
      add_edge g a b = (Some (UnknownNode ToNode), g))"
  by (auto simp: add_edge_def Let_def map_at_def map_modify_at_def split: option.splits if_splits)

theorem add_edge_unknown_node_unchanged_witness:
  "add_edge two_nodes 3 1 = (Some (UnknownNode FromNode), two_nodes) \<and>
   add_edge two_nodes 1 3 = (Some (UnknownNode ToNode), two_nodes)"
  using add_edge_unknown_node_unchanged[of two_nodes 3 1 FromNode]
    add_edge_unknown_node_unchanged[of two_nodes 1 3 ToNode]
  by (simp add: two_nodes_eq)

text \<open>
  Claim C9. On a well-formed graph \<^verbatim>\<open>exists_edge(a, b)\<close> throws exactly when
  \<open>a\<close> is not a node. When \<open>a\<close> is a node it returns whether \<open>b\<close> is a
  successor of \<open>a\<close>; in particular, when \<open>b\<close> is not a node it throws nothing
  and returns false, because the predecessor map is only read after \<open>b\<close> was found
  in the successor list of \<open>a\<close>.
\<close>
theorem exists_edge_raises:
  assumes "wf_graph g"
  shows "((\<exists>e. exists_edge g a b = Inl e) \<longleftrightarrow> a \<notin> set (node_set g)) \<and>
         (a \<in> set (node_set g) \<longrightarrow> exists_edge g a b = Inr (b \<in> succs g a)) \<and>
         (a \<in> set (node_set g) \<and> b \<notin> set (node_set g) \<longrightarrow> exists_edge g a b = Inr False)"
proof (cases "a \<in> set (node_set g)")
  case False
  with wf_graph_keys(1)[OF assms] have "map_of (succ_map g) a = None"
    by (simp add: map_of_eq_None_iff)
  with False show ?thesis by (simp add: exists_edge_def map_at_def)
next
  case True
  from wf_graph_lookup(1)[OF assms True] obtain l where
    l: "map_of (succ_map g) a = Some l" "set l = succs g a" by blast
  have r: "exists_edge g a b = Inr (b \<in> succs g a)"
  proof (cases "b \<in> succs g a")
    case False
    with l show ?thesis by (simp add: exists_edge_def map_at_def)
  next
    case b: True
    with assms have "a \<in> preds g b" by (simp add: wf_graph_sym)
    then obtain l' where "map_of (pred_map g) b = Some l'" "a \<in> set l'"
      by (auto simp: preds_def split: option.splits)
    with l b show ?thesis by (simp add: exists_edge_def map_at_def)
  qed
  moreover have "b \<notin> succs g a" if "b \<notin> set (node_set g)"
    using succs_nodes[OF assms, of b a] that by blast
  ultimately show ?thesis using True by auto
qed

theorem exists_edge_raises_witness:
  "wf_graph two_nodes \<and> exists_edge two_nodes 3 1 = Inl OutOfRange \<and>
   exists_edge two_nodes 1 3 = Inr False \<and> exists_edge two_nodes 1 2 = Inr False"
  using exists_edge_raises[OF wf_two_nodes, of 3 1] exists_edge_raises[OF wf_two_nodes, of 1 3]
    exists_edge_raises[OF wf_two_nodes, of 1 2] wf_two_nodes
  by (simp add: two_nodes_eq exists_edge_def map_at_def)

text \<open>
  Claim C6. For a graph that contains the nodes \<open>a\<close> and \<open>b\<close>, neither the
  first nor the second call of \<^verbatim>\<open>add_edge(a, b)\<close> throws, and the second call
  leaves the graph exactly as the first call left it.
\<close>
theorem add_edge_idempotent:
  assumes "built g" and "a \<in> set (node_set g)" and "b \<in> set (node_set g)"
  shows "fst (add_edge g a b) = None \<and>
         add_edge (snd (add_edge g a b)) a b = (None, snd (add_edge g a b))"
proof -
  have w: "wf_graph g" using assms(1) by (rule built_wf)
  have w': "wf_graph (snd (add_edge g a b))" using w by (rule add_edge_wf)
  have "b \<in> succs (snd (add_edge g a b)) a"
    using add_edge_succs(2)[OF w assms(2,3)] by simp
  from add_edge_old[OF w' this] add_edge_succs(1)[OF w assms(2,3)] show ?thesis by simp
qed

theorem add_edge_idempotent_witness:
  "built two_nodes \<and> add_edge two_nodes 2 1 =
     (None, \<lparr>node_set = [1, 2], succ_map = [(1, []), (2, [1])],
              pred_map = [(1, [2]), (2, [])], node_printer = no_printer\<rparr>) \<and>
   add_edge (snd (add_edge two_nodes 2 1)) 2 1 = (None, snd (add_edge two_nodes 2 1))"
proof -
  have n: "2 \<in> set (node_set two_nodes)" "1 \<in> set (node_set two_nodes)"
    by (simp_all add: two_nodes_eq)
  have "add_edge two_nodes 2 1 =
     (None, \<lparr>node_set = [1, 2], succ_map = [(1, []), (2, [1])],
              pred_map = [(1, [2]), (2, [])], node_printer = no_printer\<rparr>)"
    by (simp add: two_nodes_eq add_edge_def map_at_def map_modify_at_def)
  with add_edge_idempotent[OF built_two_nodes n] built_two_nodes show ?thesis by simp
qed

section \<open>Structural transforms: facts and claims\<close>

lemma fold_err_map: "fold_err f (map h xs) s = fold_err (\<lambda>x. f (h x)) xs s"
  by (induction xs arbitrary: s) (auto split: sum.splits)

lemma fold_err_nested:
  "fold_err (\<lambda>e. fold_err (f (fst e)) (snd e)) m s = fold_err (\<lambda>e. f (fst e) (snd e)) (edge_list m) s"
proof (induction m arbitrary: s)
  case Nil
  show ?case by (simp add: edge_list_def)
next
  case (Cons e m)
  have "edge_list (e # m) = map (Pair (fst e)) (snd e) @ edge_list m"
    by (simp add: edge_list_def)
  then show ?case
    using Cons.IH by (simp add: fold_err_append fold_err_map split: sum.splits)
qed

lemma set_edge_list: "set (edge_list m) = {(a, b). \<exists>l. (a, l) \<in> set m \<and> b \<in> set l}"
  by (auto simp: edge_list_def)

lemma edge_list_succs:
  assumes "distinct (map fst (succ_map g))"
  shows "(a, b) \<in> set (edge_list (succ_map g)) \<longleftrightarrow> b \<in> succs g a"
  using assms by (auto simp: set_edge_list succs_def split: option.splits dest: eq_key_imp_eq_value)

subsection \<open>copy_and_clear\<close>

lemma fold_clear_node:
  assumes "set ns \<subseteq> fst ` set (succ_map c)" and "set ns \<subseteq> fst ` set (pred_map c)"
  shows "fold_err clear_node ns c =
     Inr (c\<lparr>succ_map := map (\<lambda>e. if fst e \<in> set ns then (fst e, []) else e) (succ_map c),
            pred_map := map (\<lambda>e. if fst e \<in> set ns then (fst e, []) else e) (pred_map c)\<rparr>)"
  using assms
proof (induction ns arbitrary: c)
  case Nil
  show ?case by simp
next
  case (Cons n ns)
  define c' where "c' = c\<lparr>succ_map := map (modify_entry n (\<lambda>_. [])) (succ_map c),
                           pred_map := map (modify_entry n (\<lambda>_. [])) (pred_map c)\<rparr>"
  from Cons.prems have step: "clear_node n c = Inr c'"
    by (simp add: clear_node_def map_modify_at_eq c'_def)
  have keys: "fst ` set (succ_map c') = fst ` set (succ_map c)"
    "fst ` set (pred_map c') = fst ` set (pred_map c)"
    by (simp_all add: c'_def image_image fst_modify_entry)
  have "fold_err clear_node ns c' =
     Inr (c'\<lparr>succ_map := map (\<lambda>e. if fst e \<in> set ns then (fst e, []) else e) (succ_map c'),
             pred_map := map (\<lambda>e. if fst e \<in> set ns then (fst e, []) else e) (pred_map c')\<rparr>)"
    using Cons.prems by (intro Cons.IH) (simp_all add: keys)
  moreover have "(if fst (modify_entry n (\<lambda>_. []) e) \<in> set ns then (fst (modify_entry n (\<lambda>_. []) e), [])
                  else modify_entry n (\<lambda>_. []) e)
               = (if fst e \<in> set (n # ns) then (fst e, []) else e)" for e :: "'a \<times> 'a list"
    by (auto simp: modify_entry_def)
  ultimately show ?case using step by (simp add: c'_def comp_def)
qed

lemma copy_and_clear_wf:
  assumes "wf_graph g"
  shows "copy_and_clear g = Inr (cleared g)"
proof -
  have "(\<lambda>e. if fst e \<in> set (node_set g) then (fst e, []) else e) ` set m = (\<lambda>e. (fst e, [])) ` set m"
    if "fst ` set m = set (node_set g)" for m :: "('a \<times> 'a list) list"
    using that by (intro image_cong) auto
  have "map (\<lambda>e. if fst e \<in> set (node_set g) then (fst e, []) else e) m = map (\<lambda>e. (fst e, [])) m"
    if "fst ` set m = set (node_set g)" for m :: "('a \<times> 'a list) list"
    using that by (intro map_cong) auto
  with wf_graph_keys(1,2)[OF assms] fold_clear_node[of "node_set g" g]
  show ?thesis by (simp add: copy_and_clear_def cleared_def)
qed

lemma cleared_wf:
  assumes "wf_graph g"
  shows "wf_graph (cleared g)"
proof -
  have "map_of (map (\<lambda>e. (fst e, [])) m) a = Some l \<Longrightarrow> l = []" for m :: "('a \<times> 'a list) list" and a l
    by (induction m) (auto split: if_splits)
  then have e: "succs (cleared g) a = {}" "preds (cleared g) a = {}" for a
    by (auto simp: succs_def preds_def cleared_def split: option.splits)
  have l: "sorted_wrt (<) l" if "map_of (map (\<lambda>e. (fst e, [])) m) a = Some l" for m :: "('a \<times> 'a list) list" and a l
    using that by (induction m) (auto split: if_splits)
  from assms show ?thesis
    unfolding wf_graph_iff e by (auto simp: cleared_def comp_def intro: l)
qed

lemma cleared_simps:
  "node_set (cleared g) = node_set g"
  "map fst (succ_map (cleared g)) = map fst (succ_map g)"
  "map fst (pred_map (cleared g)) = map fst (pred_map g)"
  "succs (cleared g) a = {}" "preds (cleared g) a = {}"
proof -
  have "map_of (map (\<lambda>e. (fst e, [])) m) a = Some l \<Longrightarrow> l = []" for m :: "('a \<times> 'a list) list" and a l
    by (induction m) (auto split: if_splits)
  then show "succs (cleared g) a = {}" "preds (cleared g) a = {}"
    by (auto simp: succs_def preds_def cleared_def split: option.splits)
qed (simp_all add: cleared_def comp_def)

subsection \<open>transpose\<close>

lemma fold_flip_edge:
  assumes "\<forall>e \<in> set es. snd e \<in> fst ` set (succ_map t) \<and> fst e \<in> fst ` set (pred_map t)"
  shows "fold_err (\<lambda>e. flip_edge (fst e) (snd e)) es t =
     Inr (t\<lparr>succ_map := map (\<lambda>e. (fst e, snd e @ sources_of (fst e) es)) (succ_map t),
            pred_map := map (\<lambda>e. (fst e, snd e @ targets_of (fst e) es)) (pred_map t)\<rparr>)"
  using assms
proof (induction es arbitrary: t)
  case Nil
  show ?case by (simp add: sources_of_def targets_of_def)
next
  case (Cons e es)
  obtain u v where e: "e = (u, v)" by (cases e)
  define t' where "t' = t\<lparr>succ_map := map (modify_entry v (\<lambda>l. l @ [u])) (succ_map t),
                           pred_map := map (modify_entry u (\<lambda>l. l @ [v])) (pred_map t)\<rparr>"
  from Cons.prems have step: "flip_edge u v t = Inr t'"
    by (simp add: flip_edge_def map_modify_at_eq t'_def e)
  have keys: "fst ` set (succ_map t') = fst ` set (succ_map t)"
    "fst ` set (pred_map t') = fst ` set (pred_map t)"
    by (simp_all add: t'_def image_image fst_modify_entry)
  have "fold_err (\<lambda>e. flip_edge (fst e) (snd e)) es t' =
     Inr (t'\<lparr>succ_map := map (\<lambda>e. (fst e, snd e @ sources_of (fst e) es)) (succ_map t'),
             pred_map := map (\<lambda>e. (fst e, snd e @ targets_of (fst e) es)) (pred_map t')\<rparr>)"
    using Cons.prems by (intro Cons.IH) (simp add: keys)
  moreover have "(fst (modify_entry v (\<lambda>l. l @ [u]) x),
                  snd (modify_entry v (\<lambda>l. l @ [u]) x) @ sources_of (fst (modify_entry v (\<lambda>l. l @ [u]) x)) es)
               = (fst x, snd x @ sources_of (fst x) ((u, v) # es))" for x :: "'a \<times> 'a list"
    by (simp add: modify_entry_def sources_of_def)
  moreover have "(fst (modify_entry u (\<lambda>l. l @ [v]) x),
                  snd (modify_entry u (\<lambda>l. l @ [v]) x) @ targets_of (fst (modify_entry u (\<lambda>l. l @ [v]) x)) es)
               = (fst x, snd x @ targets_of (fst x) ((u, v) # es))" for x :: "'a \<times> 'a list"
    by (simp add: modify_entry_def targets_of_def)
  ultimately show ?case using step by (simp add: t'_def e comp_def)
qed

lemma targets_of_edge_list:
  assumes "distinct (map fst m)"
  shows "targets_of k (edge_list m) = (case map_of m k of None \<Rightarrow> [] | Some l \<Rightarrow> l)"
  using assms
proof (induction m)
  case Nil
  show ?case by (simp add: targets_of_def edge_list_def)
next
  case (Cons e m)
  have split: "targets_of k (edge_list (e # m)) =
      (if fst e = k then snd e else []) @ targets_of k (edge_list m)"
    by (simp add: targets_of_def edge_list_def comp_def)
  show ?case
  proof (cases "fst e = k")
    case True
    with Cons.prems have "map_of m k = None" by (simp add: map_of_eq_None_iff)
    with Cons.IH Cons.prems True split show ?thesis
      by (cases e) simp
  next
    case False
    with Cons.IH Cons.prems split show ?thesis
      by (cases e) simp
  qed
qed

lemma sources_of_edge_list:
  assumes "\<forall>e \<in> set m. distinct (snd e)"
  shows "sources_of k (edge_list m) = map fst (filter (\<lambda>e. k \<in> set (snd e)) m)"
  using assms
proof (induction m)
  case Nil
  show ?case by (simp add: sources_of_def edge_list_def)
next
  case (Cons e m)
  have one: "map fst (filter (\<lambda>x. snd x = k) (map (Pair a) l)) = (if k \<in> set l then [a] else [])"
    if "distinct l" for a :: 'a and l
    using that by (induction l) auto
  have "sources_of k (edge_list (e # m)) =
      map fst (filter (\<lambda>x. snd x = k) (map (Pair (fst e)) (snd e))) @ sources_of k (edge_list m)"
    by (simp add: sources_of_def edge_list_def)
  with Cons one[of "snd e" "fst e"] show ?case by simp
qed

lemma keyed_map_eqI:
  assumes keys: "map fst m = map fst m'" and d: "distinct (map fst m')"
    and v: "\<And>k l. map_of m' k = Some l \<Longrightarrow> h k = l"
  shows "map (\<lambda>e. (fst e, h (fst e))) m = m'"
proof (rule assoc_list_eqI)
  show "map fst (map (\<lambda>e. (fst e, h (fst e))) m) = map fst m'"
    using keys by (simp add: comp_def)
  show "distinct (map fst (map (\<lambda>e. (fst e, h (fst e))) m))"
    using keys d by (simp add: comp_def)
  have m: "map_of (map (\<lambda>e. (fst e, h (fst e))) m) k = (if k \<in> fst ` set m then Some (h k) else None)"
    for k
    by (induction m) auto
  show "map_of (map (\<lambda>e. (fst e, h (fst e))) m) = map_of m'"
  proof
    fix k
    show "map_of (map (\<lambda>e. (fst e, h (fst e))) m) k = map_of m' k"
    proof (cases "map_of m' k")
      case None
      then have "k \<notin> fst ` set m'" by (simp add: map_of_eq_None_iff)
      then have "k \<notin> fst ` set m" using keys by (metis set_map)
      with None show ?thesis by (simp add: m)
    next
      case (Some l)
      then have "k \<in> fst ` set m'" by (metis map_of_eq_None_iff option.distinct(1))
      then have "k \<in> fst ` set m" using keys by (metis set_map)
      with Some v[OF Some] show ?thesis by (simp add: m)
    qed
  qed
qed

lemma transpose_graph_wf:
  assumes w: "wf_graph g"
  shows "transpose_graph g = Inr (swapped g)"
proof -
  let ?es = "edge_list (succ_map g)"
  note k = wf_graph_keys[OF w]
  from w have W: "sorted_wrt (<) (node_set g)" "map fst (succ_map g) = node_set g"
    "map fst (pred_map g) = node_set g"
    "\<And>a l. map_of (succ_map g) a = Some l \<Longrightarrow> sorted_wrt (<) l"
    "\<And>a l. map_of (pred_map g) a = Some l \<Longrightarrow> sorted_wrt (<) l"
    unfolding wf_graph_iff by blast+
  have ends: "\<forall>e \<in> set ?es. snd e \<in> fst ` set (succ_map (cleared g)) \<and>
                            fst e \<in> fst ` set (pred_map (cleared g))"
  proof
    fix e assume "e \<in> set ?es"
    then have "snd e \<in> succs g (fst e)" using edge_list_succs[OF k(3), of "fst e" "snd e"] by simp
    from succs_nodes[OF w this] show "snd e \<in> fst ` set (succ_map (cleared g)) \<and>
                            fst e \<in> fst ` set (pred_map (cleared g))"
      using cleared_simps(2,3)[of g] W(2,3) by (metis set_map)
  qed
  have dl: "\<forall>e \<in> set (succ_map g). distinct (snd e)"
  proof
    fix e assume "e \<in> set (succ_map g)"
    then have "map_of (succ_map g) (fst e) = Some (snd e)" using k(3) by simp
    from W(4)[OF this] show "distinct (snd e)" by (simp add: strict_sorted_iff)
  qed
  have s: "map (\<lambda>e. (fst e, sources_of (fst e) ?es)) (succ_map g) = pred_map g"
  proof (rule keyed_map_eqI)
    show "map fst (succ_map g) = map fst (pred_map g)" using W(2,3) by simp
    show "distinct (map fst (pred_map g))" by (rule k(4))
    fix x l assume l: "map_of (pred_map g) x = Some l"
    have "sorted_wrt (<) (map fst (succ_map g))" using W(1,2) by simp
    then have "sorted_wrt (<) (map fst (filter (\<lambda>e. x \<in> set (snd e)) (succ_map g)))"
      by (simp add: strict_sorted_iff sorted_filter distinct_map_filter)
    then have 1: "sorted_wrt (<) (sources_of x ?es)" by (simp add: sources_of_edge_list[OF dl])
    have "set (sources_of x ?es) = {a. (a, x) \<in> set ?es}"
      by (auto simp: sources_of_def image_iff)
    also have "\<dots> = {a. x \<in> succs g a}" by (simp add: edge_list_succs[OF k(3)])
    also have "\<dots> = preds g x" using wf_graph_sym[OF w] by auto
    also have "\<dots> = set l" using l by (simp add: preds_def)
    finally show "sources_of x ?es = l" using 1 W(5)[OF l] by (intro sorted_lists_eqI)
  qed
  have p: "map (\<lambda>e. (fst e, targets_of (fst e) ?es)) (pred_map g) = succ_map g"
  proof (rule keyed_map_eqI)
    show "map fst (pred_map g) = map fst (succ_map g)" using W(2,3) by simp
    show "distinct (map fst (succ_map g))" by (rule k(3))
    fix x l assume "map_of (succ_map g) x = Some l"
    then show "targets_of x ?es = l" by (simp add: targets_of_edge_list[OF k(3)])
  qed
  have "transpose_graph g = fold_err (\<lambda>e. flip_edge (fst e) (snd e)) ?es (cleared g)"
    by (simp add: transpose_graph_def copy_and_clear_wf[OF w] fold_err_nested)
  also have "\<dots> = Inr ((cleared g)\<lparr>succ_map := map (\<lambda>e. (fst e, snd e @ sources_of (fst e) ?es)) (succ_map (cleared g)),
            pred_map := map (\<lambda>e. (fst e, snd e @ targets_of (fst e) ?es)) (pred_map (cleared g))\<rparr>)"
    by (rule fold_flip_edge[OF ends])
  also have "\<dots> = Inr (swapped g)"
    using s p by (simp add: cleared_def swapped_def comp_def)
  finally show ?thesis .
qed

lemma swapped_wf: "wf_graph g \<Longrightarrow> wf_graph (swapped g)"
  by (simp add: wf_graph_def swapped_def)

lemma swapped_swapped: "swapped (swapped g) = g"
  by (simp add: swapped_def)

subsection \<open>Union\<close>

lemma fold_add_edge:
  assumes "wf_graph r"
    and "\<forall>e \<in> set es. fst e \<in> set (node_set r) \<and> snd e \<in> set (node_set r)"
  shows "\<exists>r'. fold_err (\<lambda>e r. raise_or_continue (add_edge r (fst e) (snd e))) es r = Inr r' \<and>
           wf_graph r' \<and> node_set r' = node_set r \<and>
           (\<forall>a. succs r' a = succs r a \<union> {b. (a, b) \<in> set es})"
  using assms
proof (induction es arbitrary: r)
  case Nil
  then show ?case by simp
next
  case (Cons e es)
  obtain u v where e: "e = (u, v)" by (cases e)
  from Cons.prems have n: "u \<in> set (node_set r)" "v \<in> set (node_set r)" by (simp_all add: e)
  define r1 where "r1 = snd (add_edge r u v)"
  have w1: "wf_graph r1" unfolding r1_def using Cons.prems(1) by (rule add_edge_wf)
  have n1: "node_set r1 = node_set r" unfolding r1_def using Cons.prems(1) by (rule add_edge_node_set)
  have s1: "succs r1 = (succs r)(u := insert v (succs r u))"
    unfolding r1_def by (rule add_edge_succs(2)[OF Cons.prems(1) n])
  have step: "raise_or_continue (add_edge r u v) = Inr r1"
    using add_edge_succs(1)[OF Cons.prems(1) n] by (simp add: raise_or_continue_def r1_def)
  from Cons.prems(2) have "\<forall>e \<in> set es. fst e \<in> set (node_set r1) \<and> snd e \<in> set (node_set r1)"
    by (simp add: n1)
  from Cons.IH[OF w1 this] obtain r' where
    r': "fold_err (\<lambda>e r. raise_or_continue (add_edge r (fst e) (snd e))) es r1 = Inr r'"
      "wf_graph r'" "node_set r' = node_set r1"
      "\<And>a. succs r' a = succs r1 a \<union> {b. (a, b) \<in> set es}" by blast
  have "succs r' a = succs r a \<union> {b. (a, b) \<in> set (e # es)}" for a
    by (auto simp: r'(4) s1 e)
  with r'(1,2,3) step n1 show ?case by (simp add: e)
qed

lemma add_edges_of_wf:
  assumes "wf_graph r" and "wf_graph g" and "node_set g = node_set r"
  shows "\<exists>r'. add_edges_of g r = Inr r' \<and> wf_graph r' \<and> node_set r' = node_set r \<and>
           (\<forall>a. succs r' a = succs r a \<union> succs g a)"
proof -
  have "\<forall>e \<in> set (edge_list (succ_map g)). fst e \<in> set (node_set r) \<and> snd e \<in> set (node_set r)"
  proof
    fix e assume "e \<in> set (edge_list (succ_map g))"
    then have "snd e \<in> succs g (fst e)"
      using edge_list_succs[OF wf_graph_keys(3)[OF assms(2)], of "fst e" "snd e"] by simp
    from succs_nodes[OF assms(2) this] assms(3)
    show "fst e \<in> set (node_set r) \<and> snd e \<in> set (node_set r)" by simp
  qed
  from fold_add_edge[OF assms(1) this]
  show ?thesis
    unfolding add_edges_of_def
      fold_err_nested[of "\<lambda>u v r. raise_or_continue (add_edge r u v)" "succ_map g" r]
    by (simp add: edge_list_succs[OF wf_graph_keys(3)[OF assms(2)]])
qed

lemma graph_union_wf:
  assumes "wf_graph a" and "wf_graph b" and "node_set a = node_set b"
  shows "\<exists>u. graph_union a b = Inr u \<and> wf_graph u \<and> node_set u = node_set a \<and>
           (\<forall>x. succs u x = succs a x \<union> succs b x)"
proof -
  have c: "wf_graph (cleared a)" "node_set (cleared a) = node_set a"
    using assms(1) by (simp_all add: cleared_wf cleared_simps)
  from add_edges_of_wf[OF c(1) assms(1)] c(2) obtain r1 where
    r1: "add_edges_of a (cleared a) = Inr r1" "wf_graph r1" "node_set r1 = node_set a"
      "\<And>x. succs r1 x = succs a x" by (auto simp: cleared_simps)
  from add_edges_of_wf[OF r1(2) assms(2)] assms(3) r1(3) obtain r2 where
    r2: "add_edges_of b r1 = Inr r2" "wf_graph r2" "node_set r2 = node_set r1"
      "\<And>x. succs r2 x = succs r1 x \<union> succs b x" by auto
  show ?thesis
    using assms(3) r1 r2 by (simp add: graph_union_def copy_and_clear_wf[OF assms(1)])
qed

lemma wf_graph_eqI:
  assumes g: "wf_graph g" and h: "wf_graph h" and n: "node_set g = node_set h"
    and s: "\<And>x. succs g x = succs h x"
  shows "graph_eq g h"
proof -
  have p: "preds g x = preds h x" for x
    using wf_graph_sym[OF g] wf_graph_sym[OF h] s by blast
  have eq: "m = m'"
    if "map fst m = node_set g" "map fst m' = node_set g"
      and "\<And>a l. map_of m a = Some l \<Longrightarrow> sorted_wrt (<) l"
      and "\<And>a l. map_of m' a = Some l \<Longrightarrow> sorted_wrt (<) l"
      and "\<And>a. (case map_of m a of None \<Rightarrow> {} | Some l \<Rightarrow> set l) =
                (case map_of m' a of None \<Rightarrow> {} | Some l \<Rightarrow> set l)"
    for m m' :: "('a \<times> 'a list) list"
  proof (rule assoc_list_eqI)
    show "map fst m = map fst m'" using that by simp
    show "distinct (map fst m)" using that(1) wf_graph_keys(5)[OF g] by simp
    show "map_of m = map_of m'"
    proof
      fix a
      show "map_of m a = map_of m' a"
      proof (cases "a \<in> set (node_set g)")
        case False
        then have "a \<notin> fst ` set m" "a \<notin> fst ` set m'" using that(1,2) by (metis set_map)+
        then show ?thesis by (simp add: map_of_eq_None_iff[THEN iffD2])
      next
        case True
        then have "a \<in> fst ` set m" "a \<in> fst ` set m'" using that(1,2) by (metis set_map)+
        then obtain l l' where l: "map_of m a = Some l" "map_of m' a = Some l'"
          by (metis map_of_eq_None_iff not_None_eq)
        with that(5)[of a] have "set l = set l'" by simp
        with that(3)[OF l(1)] that(4)[OF l(2)] have "l = l'" by (intro sorted_lists_eqI)
        with l show ?thesis by simp
      qed
    qed
  qed
  from g h have G: "map fst (succ_map g) = node_set g" "map fst (pred_map g) = node_set g"
    "map fst (succ_map h) = node_set h" "map fst (pred_map h) = node_set h"
    "\<And>a l. map_of (succ_map g) a = Some l \<Longrightarrow> sorted_wrt (<) l"
    "\<And>a l. map_of (pred_map g) a = Some l \<Longrightarrow> sorted_wrt (<) l"
    "\<And>a l. map_of (succ_map h) a = Some l \<Longrightarrow> sorted_wrt (<) l"
    "\<And>a l. map_of (pred_map h) a = Some l \<Longrightarrow> sorted_wrt (<) l"
    unfolding wf_graph_iff by blast+
  have "succ_map g = succ_map h"
    using s by (intro eq G(1,5,7)) (simp_all add: G(3) n succs_def)
  moreover have "pred_map g = pred_map h"
    using p by (intro eq G(2,6,8)) (simp_all add: G(4) n preds_def)
  ultimately show ?thesis using n by (simp add: graph_eq_def)
qed

lemma one_edge_eq:
  "one_edge = \<lparr>node_set = [1, 2], succ_map = [(1, []), (2, [1])],
               pred_map = [(1, [2]), (2, [])], node_printer = no_printer\<rparr>"
  by (simp add: one_edge_def two_nodes_eq add_edge_def map_at_def map_modify_at_def)

lemma other_edge_eq:
  "other_edge = \<lparr>node_set = [1, 2], succ_map = [(1, [2]), (2, [])],
               pred_map = [(1, []), (2, [1])], node_printer = no_printer\<rparr>"
  by (simp add: other_edge_def two_nodes_eq add_edge_def map_at_def map_modify_at_def)

lemma built_one_edge: "built one_edge"
  unfolding one_edge_def by (intro built.intros built_two_nodes)

lemma built_other_edge: "built other_edge"
  unfolding other_edge_def by (intro built.intros built_two_nodes)

lemma wf_one_edge: "wf_graph one_edge"
  by (rule built_wf[OF built_one_edge])

lemma wf_other_edge: "wf_graph other_edge"
  by (rule built_wf[OF built_other_edge])

lemma union_one_other: "graph_union one_edge other_edge = Inr both_edges"
  by (simp add: one_edge_eq other_edge_eq both_edges_def graph_union_def copy_and_clear_def
      clear_node_def add_edges_of_def raise_or_continue_def add_edge_def map_at_def map_modify_at_def)

lemma union_other_one: "graph_union other_edge one_edge = Inr both_edges"
  by (simp add: one_edge_eq other_edge_eq both_edges_def graph_union_def copy_and_clear_def
      clear_node_def add_edges_of_def raise_or_continue_def add_edge_def map_at_def map_modify_at_def)

text \<open>
  Claim C3. For every graph built by \<^verbatim>\<open>add_node\<close> and \<^verbatim>\<open>add_edge\<close> calls,
  \<^verbatim>\<open>transpose\<close> returns a graph, \<^verbatim>\<open>transpose\<close> of that graph returns a graph,
  and this one is equal to the first under \<^verbatim>\<open>operator==\<close>.
\<close>

theorem transpose_transpose:
  assumes "built g"
  shows "\<exists>t tt. transpose_graph g = Inr t \<and> transpose_graph t = Inr tt \<and> graph_eq tt g"
proof -
  have w: "wf_graph g" using assms by (rule built_wf)
  have "transpose_graph (swapped g) = Inr g"
    using transpose_graph_wf[OF swapped_wf[OF w]] by (simp add: swapped_swapped)
  with transpose_graph_wf[OF w] show ?thesis by (simp add: graph_eq_def)
qed

theorem transpose_transpose_witness:
  "built one_edge \<and> transpose_graph one_edge = Inr other_edge \<and>
   transpose_graph other_edge = Inr one_edge \<and> graph_eq one_edge one_edge"
proof -
  have 1: "transpose_graph one_edge = Inr other_edge"
    by (simp add: one_edge_eq other_edge_eq transpose_graph_def copy_and_clear_def clear_node_def
        flip_edge_def map_modify_at_def)
  have 2: "transpose_graph other_edge = Inr one_edge"
    by (simp add: one_edge_eq other_edge_eq transpose_graph_def copy_and_clear_def clear_node_def
        flip_edge_def map_modify_at_def)
  from transpose_transpose[OF built_one_edge] 1 2 built_one_edge show ?thesis
    by (simp add: graph_eq_def)
qed

text \<open>
  Claim C4. Every public operation keeps the graph well-formed (\<open>wf_graph\<close>: the keys
  of both adjacency maps are the node set, \<open>b\<close> is in the successor list of \<open>a\<close>
  iff \<open>a\<close> is in the predecessor list of \<open>b\<close>, every adjacency list is strictly
  ascending; see \<open>wf_graph_iff\<close>). The empty graph is well-formed; on a well-formed
  graph \<^verbatim>\<open>add_node\<close> and \<^verbatim>\<open>add_edge\<close> leave a well-formed graph, whether they
  throw or not; \<^verbatim>\<open>transpose\<close> and \<^verbatim>\<open>copy_and_clear\<close> do not throw and return a
  well-formed graph, although \<^verbatim>\<open>transpose\<close> appends to the lists without sorting
  them; the union of two well-formed graphs over the same nodes is a well-formed graph,
  and over different nodes it throws.
\<close>

theorem operations_preserve_wf:
  assumes "wf_graph g" and "wf_graph h"
  shows "wf_graph (empty_graph p) \<and>
         wf_graph (snd (add_node g n)) \<and>
         wf_graph (snd (add_edge g a b)) \<and>
         (\<exists>t. transpose_graph g = Inr t \<and> wf_graph t) \<and>
         (\<exists>c. copy_and_clear g = Inr c \<and> wf_graph c) \<and>
         (if node_set g = node_set h then \<exists>u. graph_union g h = Inr u \<and> wf_graph u
          else graph_union g h = Inl IncompatibleNodeSets)"
proof (intro conjI)
  show "wf_graph (empty_graph p)" by (rule wf_empty_graph)
  show "wf_graph (snd (add_node g n))" using assms(1) by (rule add_node_wf)
  show "wf_graph (snd (add_edge g a b))" using assms(1) by (rule add_edge_wf)
  show "\<exists>t. transpose_graph g = Inr t \<and> wf_graph t"
    using transpose_graph_wf[OF assms(1)] swapped_wf[OF assms(1)] by simp
  show "\<exists>c. copy_and_clear g = Inr c \<and> wf_graph c"
    using copy_and_clear_wf[OF assms(1)] cleared_wf[OF assms(1)] by simp
  show "if node_set g = node_set h then \<exists>u. graph_union g h = Inr u \<and> wf_graph u
        else graph_union g h = Inl IncompatibleNodeSets"
  proof (cases "node_set g = node_set h")
    case True
    from graph_union_wf[OF assms True] True show ?thesis by auto
  next
    case False
    then show ?thesis by (simp add: graph_union_def)
  qed
qed

theorem operations_preserve_wf_witness:
  "wf_graph one_edge \<and> wf_graph other_edge \<and>
   wf_graph (empty_graph no_printer :: int graph) \<and>
   wf_graph (snd (add_node one_edge 3)) \<and>
   wf_graph (snd (add_edge one_edge 1 2)) \<and>
   transpose_graph one_edge = Inr other_edge \<and>
   copy_and_clear one_edge = Inr two_nodes \<and> wf_graph two_nodes \<and>
   graph_union one_edge other_edge = Inr both_edges \<and> wf_graph both_edges"
proof -
  have 1: "transpose_graph one_edge = Inr other_edge"
    by (simp add: one_edge_eq other_edge_eq transpose_graph_def copy_and_clear_def clear_node_def
        flip_edge_def map_modify_at_def)
  have 2: "copy_and_clear one_edge = Inr two_nodes"
    by (simp add: one_edge_eq two_nodes_eq copy_and_clear_def clear_node_def map_modify_at_def)
  have 3: "node_set one_edge = node_set other_edge" by (simp add: one_edge_eq other_edge_eq)
  from operations_preserve_wf[OF wf_one_edge wf_other_edge, of no_printer 3 1 2]
  show ?thesis using 1 2 3 wf_one_edge wf_other_edge union_one_other by auto
qed

text \<open>
  Claim C5. For graphs \<open>a\<close> and \<open>b\<close> with the same node set, \<^verbatim>\<open>a + b\<close> and
  \<^verbatim>\<open>b + a\<close> both return a graph, and the two are equal under \<^verbatim>\<open>operator==\<close>.
\<close>

theorem graph_union_commutes:
  assumes "built a" and "built b" and "node_set a = node_set b"
  shows "\<exists>u v. graph_union a b = Inr u \<and> graph_union b a = Inr v \<and> graph_eq u v"
proof -
  have w: "wf_graph a" "wf_graph b" using assms(1,2) by (simp_all add: built_wf)
  from graph_union_wf[OF w assms(3)] obtain u where
    u: "graph_union a b = Inr u" "wf_graph u" "node_set u = node_set a"
      "\<And>x. succs u x = succs a x \<union> succs b x" by blast
  from graph_union_wf[OF w(2,1) assms(3)[symmetric]] obtain v where
    v: "graph_union b a = Inr v" "wf_graph v" "node_set v = node_set b"
      "\<And>x. succs v x = succs b x \<union> succs a x" by blast
  have "graph_eq u v"
    using u(2) v(2) by (rule wf_graph_eqI) (auto simp: u v assms(3))
  with u(1) v(1) show ?thesis by simp
qed

theorem graph_union_commutes_witness:
  "built one_edge \<and> built other_edge \<and> node_set one_edge = node_set other_edge \<and>
   graph_union one_edge other_edge = Inr both_edges \<and>
   graph_union other_edge one_edge = Inr both_edges \<and> graph_eq both_edges both_edges"
proof -
  have 3: "node_set one_edge = node_set other_edge" by (simp add: one_edge_eq other_edge_eq)
  from graph_union_commutes[OF built_one_edge built_other_edge 3]
  show ?thesis
    using 3 built_one_edge built_other_edge union_one_other union_other_one
    by (simp add: graph_eq_def)
qed

section \<open>Depth first search and strongly connected components: facts and claims\<close>

lemma dfs_visit_loop_children:
  "dfs_visit_loop g node nbs m t ret =
     (case visit_children g node nbs m t of Inl e \<Rightarrow> Inl e
      | Inr (m', t', vss) \<Rightarrow> Inr (m', t', ret @ concat vss))"
proof (induction nbs arbitrary: m t ret)
  case Nil
  show ?case by simp
next
  case (Cons nb rest)
  show ?case
    by (simp add: Cons.IH split: sum.splits prod.splits)
qed

lemma dfs_visit_total:
  "wf_graph g \<Longrightarrow> node \<in> set (node_set g) \<Longrightarrow> map fst m = node_set g \<Longrightarrow>
     \<exists>m' t' vs. dfs_visit g node m t = Inr (m', t', vs) \<and> map fst m' = node_set g \<and>
       t' = t + 2 * of_nat (length vs)"
  "wf_graph g \<Longrightarrow> set nbs \<subseteq> set (node_set g) \<Longrightarrow> map fst m = node_set g \<Longrightarrow>
     \<exists>m' t' ys. dfs_visit_loop g node nbs m t ret = Inr (m', t', ret @ ys) \<and> map fst m' = node_set g \<and>
       t' = t + 2 * of_nat (length ys)"
proof (induction g node m t and g node nbs m t ret rule: dfs_visit_dfs_visit_loop.induct)
  case (1 g node m passed_time)
  have k: "node \<in> fst ` set m'" if "map fst m' = node_set g" for m' :: "'a DfsPropMap"
    using that "1.prems"(2) by (metis set_map)
  define m1 where "m1 = map (modify_entry node (\<lambda>p. p\<lparr>discovery_time := passed_time + 1\<rparr>)) m"
  define m2 where "m2 = map (modify_entry node (\<lambda>p. p\<lparr>color := GRAY\<rparr>)) m1"
  have k1: "map fst m1 = node_set g"
    using "1.prems"(3) by (simp add: m1_def keys_modify_entry_comp)
  have k2: "map fst m2 = node_set g"
    using k1 by (simp add: m2_def keys_modify_entry_comp)
  have s1: "map_modify_at node (\<lambda>p. p\<lparr>discovery_time := passed_time + 1\<rparr>) m = Inr m1"
    using k[OF "1.prems"(3)] by (simp add: map_modify_at_eq m1_def)
  have s2: "map_modify_at node (\<lambda>p. p\<lparr>color := GRAY\<rparr>) m1 = Inr m2"
    using k[OF k1] by (simp add: map_modify_at_eq m2_def)
  from wf_graph_lookup(1)[OF "1.prems"(1,2)] obtain nbs where
    nbs: "map_of (succ_map g) node = Some nbs" "set nbs = succs g node" by blast
  then have s3: "map_at (succ_map g) node = Inr nbs" by (simp add: map_at_def)
  have sub: "set nbs \<subseteq> set (node_set g)"
    using succs_nodes[OF "1.prems"(1)] nbs(2) by blast
  from "1.IH"[OF refl refl s1 s2 s3 "1.prems"(1) sub k2] obtain m3 t3 ys where
    l: "dfs_visit_loop g node nbs m2 (passed_time + 1) [node] = Inr (m3, t3, [node] @ ys)"
      "map fst m3 = node_set g" "t3 = passed_time + 1 + 2 * of_nat (length ys)" by blast
  define m4 where "m4 = map (modify_entry node (\<lambda>p. p\<lparr>color := BLACK\<rparr>)) m3"
  define m5 where "m5 = map (modify_entry node (\<lambda>p. p\<lparr>finish_time := t3 + 1\<rparr>)) m4"
  have k4: "map fst m4 = node_set g"
    using l(2) by (simp add: m4_def keys_modify_entry_comp)
  have k5: "map fst m5 = node_set g"
    using k4 by (simp add: m5_def keys_modify_entry_comp)
  have s4: "map_modify_at node (\<lambda>p. p\<lparr>color := BLACK\<rparr>) m3 = Inr m4"
    using k[OF l(2)] by (simp add: map_modify_at_eq m4_def)
  have s5: "map_modify_at node (\<lambda>p. p\<lparr>finish_time := t3 + 1\<rparr>) m4 = Inr m5"
    using k[OF k4] by (simp add: map_modify_at_eq m5_def)
  have "dfs_visit g node m passed_time = Inr (m5, t3 + 1, node # ys)"
    using s1 s2 s3 l(1) s4 s5 by (simp add: Let_def)
  moreover have "t3 + 1 = passed_time + 2 * of_nat (length (node # ys))"
    by (simp add: l(3))
  ultimately show ?case using k5 by blast
next
  case (2 g node m time ret)
  then show ?case by simp
next
  case (3 g node neighbor rest m time ret)
  from "3.prems" have nb: "neighbor \<in> set (node_set g)" and rest: "set rest \<subseteq> set (node_set g)"
    by simp_all
  have k: "neighbor \<in> fst ` set m" using nb "3.prems"(3) by (metis set_map)
  then obtain p where p: "map_at m neighbor = Inr p" using map_at_Inr_iff_key[of m neighbor] by blast
  show ?case
  proof (cases "color p = WHITE")
    case False
    from "3.IH"(3)[OF p False "3.prems"(1) rest "3.prems"(3)] p False show ?thesis by simp
  next
    case True
    define m1 where "m1 = map (modify_entry neighbor (\<lambda>p. p\<lparr>parent := node\<rparr>)) m"
    have k1: "map fst m1 = node_set g"
      using "3.prems"(3) by (simp add: m1_def keys_modify_entry_comp)
    have s1: "map_modify_at neighbor (\<lambda>p. p\<lparr>parent := node\<rparr>) m = Inr m1"
      using k by (simp add: map_modify_at_eq m1_def)
    from "3.IH"(1)[OF p True s1 "3.prems"(1) nb k1] obtain m2 t2 cv where
      v: "dfs_visit g neighbor m1 time = Inr (m2, t2, cv)" "map fst m2 = node_set g"
        "t2 = time + 2 * of_nat (length cv)" by blast
    from "3.IH"(2)[OF p True s1 v(1) refl refl "3.prems"(1) rest v(2)] obtain m' t' ys where
      l: "dfs_visit_loop g node rest m2 t2 (ret @ cv) = Inr (m', t', (ret @ cv) @ ys)"
        "map fst m' = node_set g" "t' = t2 + 2 * of_nat (length ys)" by blast
    have "dfs_visit_loop g node (neighbor # rest) m time ret = Inr (m', t', ret @ (cv @ ys))"
      using p True s1 v(1) l(1) by simp
    moreover have "t' = time + 2 * of_nat (length (cv @ ys))"
      by (simp add: l(3) v(3) algebra_simps)
    ultimately show ?thesis using l(2) by blast
  qed
qed

lemma built_three_nodes: "built three_nodes"
  unfolding three_nodes_def by (intro built.intros built_two_nodes)

lemma built_dag3: "built dag3"
  unfolding dag3_def by (intro built.intros built_three_nodes)

lemma dag3_eq:
  "dag3 = \<lparr>node_set = [1, 2, 3], succ_map = [(1, [2, 3]), (2, [3]), (3, [])],
            pred_map = [(1, []), (2, [1]), (3, [1, 2])], node_printer = no_printer\<rparr>"
  by (simp add: dag3_def three_nodes_def two_nodes_eq add_node_def set_insert_def
      add_edge_def map_at_def map_modify_at_def)

text \<open>
  Claim C8. On a well-formed graph, for a node \<open>n\<close>, a property map with an entry for
  every node and any time \<open>t\<close>, \<^verbatim>\<open>dfs_visit(n, map, t)\<close> throws nothing and returns.
  The sequence it returns is \<open>n\<close> followed by the concatenation, in the order of the
  successor list, of the sequences returned by the recursive calls on the successors
  that are white when the loop reaches them (\<open>visit_children\<close>). The time it returns is
  one more than the time after the last of these calls, and is \<open>t\<close> plus two for every
  node of the returned sequence, in 32-bit arithmetic. The map is the one after the
  last recursive call, with \<open>n\<close> black and finished at the returned time.
\<close>

theorem dfs_visit_preorder:
  assumes "wf_graph g" and "n \<in> set (node_set g)" and "map fst m = node_set g"
  shows "\<exists>neighbors m2 time2 child_vecs.
      map_at (succ_map g) n = Inr neighbors \<and>
      visit_children g n neighbors (discover n (t + 1) m) (t + 1) = Inr (m2, time2, child_vecs) \<and>
      dfs_visit g n m t = Inr (finish n (time2 + 1) m2, time2 + 1, n # concat child_vecs) \<and>
      time2 + 1 = t + 2 * of_nat (length (n # concat child_vecs))"
proof -
  have k: "n \<in> fst ` set m'" if "map fst m' = node_set g" for m' :: "'a DfsPropMap"
    using that assms(2) by (metis set_map)
  define m1 where "m1 = map (modify_entry n (\<lambda>p. p\<lparr>discovery_time := t + 1\<rparr>)) m"
  have k1: "map fst m1 = node_set g"
    using assms(3) by (simp add: m1_def keys_modify_entry_comp)
  have kd: "map fst (discover n (t + 1) m) = node_set g"
    using assms(3) by (simp add: discover_def keys_modify_entry_comp)
  have s1: "map_modify_at n (\<lambda>p. p\<lparr>discovery_time := t + 1\<rparr>) m = Inr m1"
    using k[OF assms(3)] by (simp add: map_modify_at_eq m1_def)
  have s2: "map_modify_at n (\<lambda>p. p\<lparr>color := GRAY\<rparr>) m1 = Inr (discover n (t + 1) m)"
    using k[OF k1] by (simp add: map_modify_at_eq m1_def discover_def modify_entry_modify_entry)
  from wf_graph_lookup(1)[OF assms(1,2)] obtain nbs where
    nbs: "map_of (succ_map g) n = Some nbs" "set nbs = succs g n" by blast
  then have s3: "map_at (succ_map g) n = Inr nbs" by (simp add: map_at_def)
  have sub: "set nbs \<subseteq> set (node_set g)"
    using succs_nodes[OF assms(1)] nbs(2) by blast
  from dfs_visit_total(2)[OF assms(1) sub kd, of n "t + 1" "[n]"] obtain m3 t3 ys where
    l: "dfs_visit_loop g n nbs (discover n (t + 1) m) (t + 1) [n] = Inr (m3, t3, [n] @ ys)"
      "map fst m3 = node_set g" "t3 = t + 1 + 2 * of_nat (length ys)" by blast
  from l(1) obtain vss where
    c: "visit_children g n nbs (discover n (t + 1) m) (t + 1) = Inr (m3, t3, vss)" "ys = concat vss"
    unfolding dfs_visit_loop_children by (auto split: sum.splits)
  define m4 where "m4 = map (modify_entry n (\<lambda>p. p\<lparr>color := BLACK\<rparr>)) m3"
  have k4: "map fst m4 = node_set g"
    using l(2) by (simp add: m4_def keys_modify_entry_comp)
  have s4: "map_modify_at n (\<lambda>p. p\<lparr>color := BLACK\<rparr>) m3 = Inr m4"
    using k[OF l(2)] by (simp add: map_modify_at_eq m4_def)
  have s5: "map_modify_at n (\<lambda>p. p\<lparr>finish_time := t3 + 1\<rparr>) m4 = Inr (finish n (t3 + 1) m3)"
    using k[OF k4] by (simp add: map_modify_at_eq m4_def finish_def modify_entry_modify_entry)
  have "dfs_visit g n m t = Inr (finish n (t3 + 1) m3, t3 + 1, n # concat vss)"
    using s1 s2 s3 l(1) s4 s5 c(2) by (simp add: Let_def)
  moreover have "t3 + 1 = t + 2 * of_nat (length (n # concat vss))"
    using l(3) c(2) by simp
  ultimately show ?thesis using s3 c(1) by blast
qed

lemma init_dfs_map_dag3:
  "init_dfs_map 0 dag3 =
     [(1, \<lparr>parent = 0, discovery_time = - 1, finish_time = - 1, color = WHITE\<rparr>),
      (2, \<lparr>parent = 0, discovery_time = - 1, finish_time = - 1, color = WHITE\<rparr>),
      (3, \<lparr>parent = 0, discovery_time = - 1, finish_time = - 1, color = WHITE\<rparr>)]"
  by (simp add: init_dfs_map_def dag3_eq)

theorem dfs_visit_preorder_witness:
  "wf_graph dag3 \<and> 1 \<in> set (node_set dag3) \<and> map fst (init_dfs_map 0 dag3) = node_set dag3 \<and>
   map_at (succ_map dag3) 1 = Inr [2, 3] \<and>
   (\<exists>m2. visit_children dag3 1 [2, 3] (discover 1 1 (init_dfs_map 0 dag3)) 1 = Inr (m2, 5, [[2, 3]]) \<and>
      dfs_visit dag3 1 (init_dfs_map 0 dag3) 0 = Inr (finish 1 6 m2, 6, [1, 2, 3]))"
proof -
  have w: "wf_graph dag3" by (rule built_wf[OF built_dag3])
  have n: "1 \<in> set (node_set dag3)" by (simp add: dag3_eq)
  have i: "map fst (init_dfs_map 0 dag3) = node_set dag3"
    by (simp add: init_dfs_map_dag3) (simp add: dag3_eq)
  have s: "map_at (succ_map dag3) 1 = Inr [2, 3]" by (simp add: dag3_eq map_at_def)
  from dfs_visit_preorder[OF w n i, of 0] s obtain m2 time2 child_vecs where
    r: "visit_children dag3 1 [2, 3] (discover 1 1 (init_dfs_map 0 dag3)) 1 = Inr (m2, time2, child_vecs)"
       "dfs_visit dag3 1 (init_dfs_map 0 dag3) 0 = Inr (finish 1 (time2 + 1) m2, time2 + 1, 1 # concat child_vecs)"
       "time2 + 1 = 0 + 2 * of_nat (length (1 # concat child_vecs :: int list))"
    by auto
  have "map_sum id snd (visit_children dag3 1 [2, 3] (discover 1 1 (init_dfs_map 0 dag3)) 1)
          = Inr (5, [[2, 3]])"
    unfolding init_dfs_map_dag3 dag3_eq by code_simp
  with r(1) have "time2 = 5" "child_vecs = [[2, 3]]" by auto
  with r(1,2) w n i s show ?thesis by simp
qed

text \<open>
  Claim C1, at the graph with the edges 1 \<rightarrow> 3, 3 \<rightarrow> 2 and 2 \<rightarrow> 3 over \<^verbatim>\<open>int\<close> nodes
  (whose value-initialised node 0 is not a node of the graph). The nodes 2 and 3 reach
  each other, and \<^verbatim>\<open>scc\<close> returns three sequences: 2 alone, and 2 again after 3.
  The forest of the second search has the edge 3 \<rightarrow> 2 only; the loop of \<^verbatim>\<open>scc\<close>
  starts its visits at the least node left, here at 2 before the root 3 of its tree,
  and every visit starts from a map that is white again.
\<close>

theorem scc_splits_a_cycle:
  "scc 0 cycle_entered_at_3 = Inr [[1], [2], [3, 2]] \<and>
   3 \<in> succs cycle_entered_at_3 2 \<and> 2 \<in> succs cycle_entered_at_3 3"
  by code_simp

text \<open>
  Claim C2. For the graph of scenario A, \<^verbatim>\<open>scc\<close> returns exactly one component, and
  its elements are exactly A, B and C.
\<close>

theorem scc_scenario_a:
  "scc [] scenario_a = Inr [[''A'', ''C'', ''B'']] \<and>
   (\<exists>c. scc [] scenario_a = Inr [c] \<and> set c = {''A'', ''B'', ''C''})"
proof -
  have "scc [] scenario_a = Inr [[''A'', ''C'', ''B'']]" by code_simp
  then show ?thesis by auto
qed

lemma built_cycle_entered_at_3: "built cycle_entered_at_3"
  unfolding cycle_entered_at_3_def by (intro built.intros built_three_nodes)

lemma built_scenario_a: "built scenario_a"
  unfolding scenario_a_def abc_nodes_def by (intro built.intros)

section \<open>Further facts about the searches\<close>

text \<open>
  \<^verbatim>\<open>init_dfs_map\<close> of a well-formed graph has one white entry for every node, in
  the order of the node set.
\<close>

lemma map_assign_greatest:
  "\<forall>k \<in> set ks. k < n \<Longrightarrow> map_assign n v (map (\<lambda>k. (k, w)) ks) = map (\<lambda>k. (k, w)) ks @ [(n, v)]"
  by (induction ks) auto

lemma fold_map_assign_sorted:
  "sorted_wrt (<) (ks @ ns) \<Longrightarrow>
     fold (\<lambda>n. map_assign n v) ns (map (\<lambda>k. (k, v)) ks) = map (\<lambda>k. (k, v)) (ks @ ns)"
proof (induction ns arbitrary: ks)
  case Nil
  show ?case by simp
next
  case (Cons n ns)
  from Cons.prems have lt: "\<forall>k \<in> set ks. k < n" and s: "sorted_wrt (<) ((ks @ [n]) @ ns)"
    by (auto simp: sorted_wrt_append)
  from Cons.IH[OF s] map_assign_greatest[OF lt, of v v] show ?case by simp
qed

lemma init_dfs_map_wf:
  assumes "wf_graph g"
  shows "init_dfs_map dflt g =
           map (\<lambda>n. (n, \<lparr>parent = dflt, discovery_time = - 1, finish_time = - 1, color = WHITE\<rparr>))
             (node_set g)"
    and "map fst (init_dfs_map dflt g) = node_set g"
proof -
  from assms have "sorted_wrt (<) ([] @ node_set g)" by (simp add: wf_graph_def)
  from fold_map_assign_sorted[OF this]
  show "init_dfs_map dflt g =
           map (\<lambda>n. (n, \<lparr>parent = dflt, discovery_time = - 1, finish_time = - 1, color = WHITE\<rparr>))
             (node_set g)"
    by (simp add: init_dfs_map_def)
  then show "map fst (init_dfs_map dflt g) = node_set g" by (simp add: comp_def)
qed

text \<open>
  Scenario A for any node type: for nodes \<open>a < b < c\<close>, neither \<open>a\<close> nor \<open>c\<close>
  the value-initialised node, \<^verbatim>\<open>scc\<close> returns the one component \<open>a\<close>, \<open>c\<close>,
  \<open>b\<close>. The two nodes that become parents in the second search are \<open>a\<close> and
  \<open>c\<close>.
\<close>

lemma scc_three_cycle:
  assumes "a < b" "b < c" "dflt \<noteq> a" "dflt \<noteq> c"
  shows "scc dflt (three_cycle p a b c) = Inr [[a, c, b]]"
proof -
  have ne: "a \<noteq> b" "b \<noteq> c" "a \<noteq> c" "b \<noteq> a" "c \<noteq> b" "c \<noteq> a" "a < c"
    "\<not> b < a" "\<not> c < b" "\<not> c < a" "a \<noteq> dflt" "c \<noteq> dflt"
    using assms by auto
  define g where "g = \<lparr>node_set = [a, b, c], succ_map = [(a, [b]), (b, [c]), (c, [a])],
     pred_map = [(a, [c]), (b, [a]), (c, [b])], node_printer = p\<rparr>"
  define w where "w = \<lparr>parent = dflt, discovery_time = - 1 :: 32 word, finish_time = - 1 :: 32 word, color = WHITE\<rparr>"
  have i: "init_dfs_map dflt g = [(a, w), (b, w), (c, w)]"
    using ne by (simp add: init_dfs_map_def g_def w_def)
  have d: "dfs dflt g std_less =
      Inr [(a, \<lparr>parent = dflt, discovery_time = 1, finish_time = 6, color = BLACK\<rparr>),
           (b, \<lparr>parent = a, discovery_time = 2, finish_time = 5, color = BLACK\<rparr>),
           (c, \<lparr>parent = b, discovery_time = 3, finish_time = 4, color = BLACK\<rparr>)]"
    unfolding dfs_def i using ne
    by (simp add: g_def w_def std_less_def map_at_def map_modify_at_def Let_def)
  have t: "transpose_graph g = Inr (swapped g)"
    using ne by (simp add: g_def swapped_def transpose_graph_def copy_and_clear_def clear_node_def
        flip_edge_def map_modify_at_def)
  have i': "init_dfs_map dflt (swapped g) = [(a, w), (b, w), (c, w)]"
    using ne by (simp add: init_dfs_map_def g_def w_def swapped_def)
  define dm where "dm = [(a, \<lparr>parent = dflt, discovery_time = 1 :: 32 word, finish_time = 6 :: 32 word, color = BLACK\<rparr>),
           (b, \<lparr>parent = a, discovery_time = 2, finish_time = 5, color = BLACK\<rparr>),
           (c, \<lparr>parent = b, discovery_time = 3, finish_time = 4, color = BLACK\<rparr>)]"
  have so: "sort_by (finish_time_greater dm) [a, b, c] = Inr [a, b, c]"
    using ne by (simp add: finish_time_greater_def dm_def map_at_def)
  have d2: "dfs dflt (swapped g) (finish_time_greater dm) =
      Inr [(a, \<lparr>parent = dflt, discovery_time = 1, finish_time = 6, color = BLACK\<rparr>),
           (b, \<lparr>parent = c, discovery_time = 3, finish_time = 4, color = BLACK\<rparr>),
           (c, \<lparr>parent = a, discovery_time = 2, finish_time = 5, color = BLACK\<rparr>)]"
    unfolding dfs_def i' using ne so
    by (simp add: g_def w_def swapped_def map_at_def map_modify_at_def Let_def)
  define f where "f = \<lparr>node_set = [a, b, c], succ_map = [(a, [c]), (b, []), (c, [b])],
     pred_map = [(a, []), (b, [c]), (c, [a])], node_printer = p\<rparr>"
  have fo: "dfs_forest dflt (swapped g) (finish_time_greater dm) = Inr f"
    unfolding dfs_forest_def d2 using ne
    by (simp add: f_def g_def swapped_def raise_or_continue_def add_node_def add_edge_def
        empty_graph_def set_insert_def map_at_def map_modify_at_def)
  have v: "dfs_visit f a (init_dfs_map dflt g) 0 =
      Inr ([(a, \<lparr>parent = dflt, discovery_time = 1, finish_time = 6, color = BLACK\<rparr>),
           (b, \<lparr>parent = c, discovery_time = 3, finish_time = 4, color = BLACK\<rparr>),
           (c, \<lparr>parent = a, discovery_time = 2, finish_time = 5, color = BLACK\<rparr>)], 6, [a, c, b])"
    unfolding i using ne by (simp add: f_def w_def map_at_def map_modify_at_def Let_def)
  have "scc_loop dflt g f [a, b, c] [] = Inr [[a, c, b]]"
    apply (subst scc_loop.simps)
    apply (simp only: v list.case sum.case prod.case)
    apply (subst scc_loop.simps)
    apply simp
    done
  then show ?thesis
    unfolding three_cycle_def g_def[symmetric] scc_def d[unfolded dm_def[symmetric]] t
    using fo by (simp add: f_def)
qed

text \<open>
  With \<^verbatim>\<open>int\<close> nodes 0, 1 and 2 the first node is the value-initialised node: a
  node whose parent it is counts as a node without a parent, and the forest loses that
  edge.
\<close>

lemma scc_value_initialised_node:
  "scc 0 (three_cycle no_printer 0 1 (2 :: int)) = Inr [[0], [1], [2, 1]]"
  by code_simp

text \<open>
  The two searches on the graph with the edges 1 \<rightarrow> 3, 3 \<rightarrow> 2 and 2 \<rightarrow> 3: the finish
  times of the first, and the forest of the second on the transposed graph, whose only
  edge is 3 \<rightarrow> 2.
\<close>

lemma cycle_entered_at_3_first_search:
  "dfs 0 cycle_entered_at_3 std_less =
     Inr [(1, \<lparr>parent = 0, discovery_time = 1, finish_time = 6, color = BLACK\<rparr>),
          (2, \<lparr>parent = 3, discovery_time = 3, finish_time = 4, color = BLACK\<rparr>),
          (3, \<lparr>parent = 1, discovery_time = 2, finish_time = 5, color = BLACK\<rparr>)]"
  by code_simp

lemma cycle_entered_at_3_forest:
  "map_sum id succ_map
     (dfs_forest 0 (swapped cycle_entered_at_3)
        (finish_time_greater
          [(1, \<lparr>parent = 0, discovery_time = 1, finish_time = 6, color = BLACK\<rparr>),
           (2, \<lparr>parent = 3, discovery_time = 3, finish_time = 4, color = BLACK\<rparr>),
           (3, \<lparr>parent = 1, discovery_time = 2, finish_time = 5, color = BLACK\<rparr>)]))
   = Inr [(1, []), (2, []), (3, [2])]"
  by code_simp

end
